theory Spec2Isabelle
  imports Main "HOL-Library.Word"
begin

unbundle bit_operations_syntax

section \<open>Data model\<close>

text \<open>
  A \<open>Recipient\<close> is identified by its \<open>(localUid, remoteUid)\<close> pair. The recent contacts
  model only reads recipients, so there a recipient carries the contact id it has when the
  event is handed to the model (\<open>0\<close> is "no contact"). The resolver writes the outcome of
  a resolution; there the outcome is kept in a store of its own (see \<open>Resolver\<close>).
\<close>

record Recipient =
  localUid :: string
  remoteUid :: string
  contactId :: int

text \<open>
  Modelled from the spec: the \<open>Event\<close> class is declared outside the sources at hand; the data
  model gives an event an id, an end time, a category and one recipient.
\<close>

record Event =
  eventId :: int
  endTime :: int
  category :: int
  recipient :: Recipient

text \<open>A cache item of the contact directory: the contact's id and its favorite detail.\<close>

record CacheItem =
  iid :: int
  isFavorite :: bool

text \<open>
  What the sources use from declarations that are not at hand: the constant
  \<open>Event::AnyCategory\<close>, the values of \<open>RecentContactsModel::RequiredProperty\<close> and of
  \<open>QContactStatusFlags\<close>, three functions of \<open>Recipient\<close>, and whether \<open>Q_ASSERT\<close> is
  compiled in (it is in a debug build, and expands to nothing under \<open>QT_NO_DEBUG\<close>).
\<close>

record Env =
  AnyCategory :: int
  NoPropertyRequired :: int
  PhoneNumberRequired :: int
  EmailAddressRequired :: int
  AccountUriRequired :: int
  HasPhoneNumber :: "64 word"
  HasEmailAddress :: "64 word"
  HasOnlineAccount :: "64 word"
  isPhoneNumber :: "Recipient \<Rightarrow> bool"
  phoneNumberMatchDetails :: "string \<Rightarrow> string"
  matchesPhoneNumber :: "Recipient \<Rightarrow> string \<Rightarrow> bool"
  assertsEnabled :: bool

text \<open>
  The contact directory (\<open>SeasideCache\<close>) as it answers during one call: the cache lookups,
  the two resolve requests (\<open>None\<close> is a cache miss, answered later through
  \<open>addressResolved\<close>), and \<open>Recipient::matchesAddressFlags\<close>, which reads the flags of the
  resolved contact.
\<close>

record Directory =
  existingItem :: "32 word \<Rightarrow> CacheItem option"
  matchesAddressFlags :: "Recipient \<Rightarrow> 64 word \<Rightarrow> bool"
  resolvePhoneNumber :: "string \<Rightarrow> CacheItem option"
  resolveOnlineAccount :: "string \<Rightarrow> string \<Rightarrow> CacheItem option"
  itemByPhoneNumber :: "string \<Rightarrow> CacheItem option"

text \<open>The signals and outgoing calls of the model, in the order they are made.\<close>

datatype signal =
    RemoveRows int int
  | InsertRows int int
  | ResolveAddedEvents "Event list"
  | ModelUpdated
  | ResolvingChanged
  | RequiredPropertyChanged
  | ExcludeFavoritesChanged

text \<open>
  \<open>RecentContactsModelPrivate\<close>, with the fields of \<open>EventModelPrivate\<close> that
  \<open>prependEvents\<close> uses: the category mask, the limit and the rows of \<open>eventRootItem\<close>.
  A \<open>QSet<int>\<close> is a list without duplicates (see \<open>qset_insert\<close>).
\<close>

record Model =
  eventCategoryMask :: int
  queryLimit :: int
  requiredProperty :: int
  excludeFavorites :: bool
  addressFlags :: "64 word"
  unresolvedEvents :: "Event list"
  resolvedEvents :: "Event list"
  resolvedContactIds :: "int list"
  rows :: "Event list"

section \<open>QSet\<close>

text \<open>
  The operations of \<open>QSet<int>\<close> that the model uses, on a list kept without duplicates:
  \<open>insert\<close> and \<open>contains\<close>; \<open>count()\<close> is the length of the list, and \<open>values()\<close> its
  elements, in an order that the caller does not rely on (the source sorts them).
\<close>

definition qset_insert :: "int \<Rightarrow> int list \<Rightarrow> int list" where
  "qset_insert x s = (if x \<in> set s then s else s @ [x])"

definition qset_contains :: "int list \<Rightarrow> int \<Rightarrow> bool" where
  "qset_contains s x = (x \<in> set s)"

section \<open>Recent contacts model\<close>

text \<open>
  Modelled from the spec: \<open>RecipientList::contactIds\<close> is not in the sources; with one
  recipient per event, whose contact id is \<open>0\<close> when it has none, \<open>contactIds().value(0)\<close> is
  that recipient's contact id.
\<close>

definition eventContact :: "Event \<Rightarrow> int" where
  "eventContact event = contactId (recipient event)"

definition contactIsFavorite :: "Directory \<Rightarrow> int \<Rightarrow> bool" where
  "contactIsFavorite dir cid =
     (case existingItem dir (word_of_int cid) of
        Some item \<Rightarrow> isFavorite item
      | None \<Rightarrow> False)"

text \<open>The loop over the incoming events (lines 200-230), with its \<open>continue\<close> and \<open>break\<close>.\<close>

fun ingestEvents :: "Env \<Rightarrow> Directory \<Rightarrow> bool \<Rightarrow> Event list \<Rightarrow> Model \<Rightarrow> Model" where
  "ingestEvents env dir resolved [] m = m"
| "ingestEvents env dir resolved (event # events) m =
     (if eventCategoryMask m = AnyCategory env \<or> (category event AND eventCategoryMask m) \<noteq> 0 then
        if \<not> resolved then
          ingestEvents env dir resolved events (m\<lparr>unresolvedEvents := unresolvedEvents m @ [event]\<rparr>)
        else
          let r = recipient event; cid = contactId r in
          if cid \<noteq> 0 \<and> \<not> qset_contains (resolvedContactIds m) cid then
            if excludeFavorites m \<and> contactIsFavorite dir cid then
              ingestEvents env dir resolved events m
            else if addressFlags m = 0 \<or> matchesAddressFlags dir r (addressFlags m) then
              let m' = m\<lparr>resolvedContactIds := qset_insert cid (resolvedContactIds m),
                         resolvedEvents := resolvedEvents m @ [event]\<rparr>
              in if int (length (resolvedEvents m')) = queryLimit m' then m'
                 else ingestEvents env dir resolved events m'
            else ingestEvents env dir resolved events m
          else ingestEvents env dir resolved events m
      else ingestEvents env dir resolved events m)"

text \<open>Lines 245-252: the rows whose contact is claimed by a new event.\<close>

definition obsoleteRows :: "int list \<Rightarrow> Event list \<Rightarrow> int list" where
  "obsoleteRows ids rs =
     foldl (\<lambda>removeSet row.
              if qset_contains ids (eventContact (rs ! row)) then qset_insert (int row) removeSet
              else removeSet)
           [] [0..<length rs]"

text \<open>Lines 259-261: \<open>while (removeSet.contains(removeIndex)) --removeIndex;\<close>\<close>

function skipRemoved :: "int list \<Rightarrow> int \<Rightarrow> int" where
  "skipRemoved removeSet removeIndex =
     (if qset_contains removeSet removeIndex then skipRemoved removeSet (removeIndex - 1)
      else removeIndex)"
  by pat_completeness auto
termination
proof (relation "measure (\<lambda>(s, i). length (filter (\<lambda>x. x \<le> i) s))")
  show "wf (measure (\<lambda>(s, i). length (filter (\<lambda>x. x \<le> i) s)))" by simp
next
  fix removeSet :: "int list" and removeIndex :: int
  assume "qset_contains removeSet removeIndex"
  then have mem: "removeIndex \<in> set removeSet" by (simp add: qset_contains_def)
  have "length (filter (\<lambda>x. x \<le> removeIndex - 1) removeSet)
        < length (filter (\<lambda>x. x \<le> removeIndex) removeSet)"
    using mem
  proof (induction removeSet)
    case Nil
    then show ?case by simp
  next
    case (Cons a s)
    have le: "length (filter (\<lambda>x. x \<le> removeIndex - 1) s) \<le> length (filter (\<lambda>x. x \<le> removeIndex) s)"
      by (induction s) auto
    show ?case
    proof (cases "a = removeIndex")
      case True
      then show ?thesis using le by simp
    next
      case False
      then have "removeIndex \<in> set s" using Cons.prems by simp
      then show ?thesis using Cons.IH by auto
    qed
  qed
  then show "((removeSet, removeIndex - 1), (removeSet, removeIndex))
             \<in> measure (\<lambda>(s, i). length (filter (\<lambda>x. x \<le> i) s))"
    by simp
qed

text \<open>Lines 258-269: the loop that trims the last rows.\<close>

function trimLoop :: "int \<Rightarrow> int \<Rightarrow> int list \<Rightarrow> int list" where
  "trimLoop trimCount removeIndex removeSet =
     (if trimCount > 0 then
        let removeIndex' = skipRemoved removeSet removeIndex in
        if removeIndex' < 0 then removeSet
        else trimLoop (trimCount - 1) (removeIndex' - 1) (qset_insert removeIndex' removeSet)
      else removeSet)"
  by pat_completeness auto
termination
  by (relation "measure (\<lambda>(t, i, s). nat t)") auto

text \<open>Lines 280-284: the length of the run of consecutive indices at the end of the list.\<close>

function consecutiveCountLoop :: "int list \<Rightarrow> nat \<Rightarrow> int \<Rightarrow> nat \<Rightarrow> nat" where
  "consecutiveCountLoop removeIndices count endRow consecutiveCount =
     (if int count - int consecutiveCount > 0 then
        if removeIndices ! (count - 1 - consecutiveCount) \<noteq> endRow - int consecutiveCount
        then consecutiveCount
        else consecutiveCountLoop removeIndices count endRow (consecutiveCount + 1)
      else consecutiveCount)"
  by pat_completeness auto
termination
  by (relation "measure (\<lambda>(xs, c, e, k). c - k)") auto

text \<open>
  \<open>EventTreeItem::removeAt\<close>: the child at that row is taken out of the list. The rows
  passed to it are rows of the list; for any other row the list is left as it is.
\<close>

definition removeAt :: "Event list \<Rightarrow> int \<Rightarrow> Event list" where
  "removeAt rs i =
     (if 0 \<le> i \<and> i < int (length rs) then take (nat i) rs @ drop (Suc (nat i)) rs else rs)"

text \<open>Lines 290-293: \<open>while (end >= start) { removeAt(end); --end; }\<close>\<close>

function removeRange :: "Event list \<Rightarrow> int \<Rightarrow> int \<Rightarrow> Event list" where
  "removeRange rs start endRow =
     (if endRow \<ge> start then removeRange (removeAt rs endRow) start (endRow - 1) else rs)"
  by pat_completeness auto
termination
  by (relation "measure (\<lambda>(rs, s, e). nat (e - s + 1))") auto

lemma consecutiveCountLoop_ge: "k \<le> consecutiveCountLoop xs c e k"
proof (induction xs c e k rule: consecutiveCountLoop.induct)
  case (1 xs c e k)
  show ?case
  proof (cases "int c - int k > 0 \<and> xs ! (c - 1 - k) = e - int k")
    case True
    then have "k + 1 \<le> consecutiveCountLoop xs c e (k + 1)" using "1.IH" by simp
    moreover have "consecutiveCountLoop xs c e k = consecutiveCountLoop xs c e (k + 1)"
      using True by (subst consecutiveCountLoop.simps) simp
    ultimately show ?thesis by simp
  next
    case False
    then have "consecutiveCountLoop xs c e k = k"
      by (subst consecutiveCountLoop.simps) auto
    then show ?thesis by simp
  qed
qed

text \<open>Lines 276-295: the rows are removed from the last run of indices to the first.\<close>

function removeRowsLoop :: "int list \<Rightarrow> Event list \<Rightarrow> signal list \<Rightarrow> Event list \<times> signal list" where
  "removeRowsLoop removeIndices rs sigs =
     (if length removeIndices \<noteq> 0 then
        let count = length removeIndices;
            endRow = last removeIndices;
            consecutiveCount = consecutiveCountLoop removeIndices count endRow 1;
            start = endRow - int consecutiveCount + 1
        in removeRowsLoop (take (count - consecutiveCount) removeIndices)
             (removeRange rs start endRow) (sigs @ [RemoveRows start endRow])
      else (rs, sigs))"
  by pat_completeness auto
termination
proof (relation "measure (\<lambda>(xs, rs, sigs). length xs)")
  show "wf (measure (\<lambda>(xs, rs, sigs). length xs))" by simp
next
  fix removeIndices :: "int list" and rs :: "Event list" and sigs :: "signal list"
    and count endRow consecutiveCount start
  assume ne: "length removeIndices \<noteq> 0"
    and c: "count = length removeIndices"
    and e: "endRow = last removeIndices"
    and k: "consecutiveCount = consecutiveCountLoop removeIndices count endRow 1"
  have "1 \<le> consecutiveCount" using consecutiveCountLoop_ge [of 1] k by simp
  then show "((take (count - consecutiveCount) removeIndices, removeRange rs start endRow,
               sigs @ [RemoveRows start endRow]), (removeIndices, rs, sigs))
             \<in> measure (\<lambda>(xs, rs, sigs). length xs)"
    using ne c by simp
qed

text \<open>
  The equations of the loops above rewrite a call to a term with another call in it; they
  are used only where they are named.
\<close>

declare skipRemoved.simps [simp del]
declare trimLoop.simps [simp del]
declare consecutiveCountLoop.simps [simp del]
declare removeRange.simps [simp del]
declare removeRowsLoop.simps [simp del]

text \<open>\<open>EventTreeItem::insertChildAt\<close> and the loop of lines 300-303.\<close>

definition insertChildAt :: "nat \<Rightarrow> Event \<Rightarrow> Event list \<Rightarrow> Event list" where
  "insertChildAt i e rs = take i rs @ [e] @ drop i rs"

fun insertLoop :: "nat \<Rightarrow> Event list \<Rightarrow> Event list \<Rightarrow> Event list" where
  "insertLoop start [] rs = rs"
| "insertLoop start (e # es) rs = insertLoop (Suc start) es (insertChildAt start e rs)"

text \<open>
  Lines 243-308: the block that runs when there are new events to show. The source computes
  \<open>trimCount\<close> (line 256) in 32-bit \<open>int\<close>; here \<open>queryLimit\<close>, the counts and \<open>trimCount\<close>
  are unbounded integers. The two agree as long as no value leaves the 32-bit range, which
  is so for limits between 0 and \<open>2 ^ 30\<close> (lemma \<open>trimCount_within_int32\<close>). For a
  negative limit near the least \<open>int\<close> the subtraction of line 256 overflows in the source;
  the model does not follow the source there.
\<close>

definition mergeResolved :: "Model \<Rightarrow> Model \<times> signal list" where
  "mergeResolved m =
     (let rowCount = int (length (rows m));
          removeSet0 = obsoleteRows (resolvedContactIds m) (rows m);
          removeSet =
            (if queryLimit m \<noteq> 0 then
               trimLoop (rowCount + int (length (resolvedEvents m)) - int (length removeSet0)
                         - queryLimit m)
                        (rowCount - 1) removeSet0
             else removeSet0);
          removeIndices = sort removeSet;
          (rs, sigs) = removeRowsLoop removeIndices (rows m) [];
          rs' = insertLoop 0 (resolvedEvents m) rs
      in (m\<lparr>rows := rs', resolvedEvents := [], resolvedContactIds := []\<rparr>,
          sigs @ [InsertRows 0 (int (length (resolvedEvents m)) - 1)]))"

text \<open>\<open>RecentContactsModelPrivate::prependEvents\<close>.\<close>

definition prependEvents ::
  "Env \<Rightarrow> Directory \<Rightarrow> Event list \<Rightarrow> bool \<Rightarrow> Model \<Rightarrow> Model \<times> signal list" where
  "prependEvents env dir events resolved m0 =
     (let m1 = ingestEvents env dir resolved events m0 in
      if unresolvedEvents m1 \<noteq> []
         \<and> (queryLimit m1 = 0 \<or> int (length (resolvedEvents m1)) < queryLimit m1)
      then (m1\<lparr>unresolvedEvents := tl (unresolvedEvents m1)\<rparr>,
            [ResolveAddedEvents [hd (unresolvedEvents m1)]])
      else
        let m2 = (if unresolvedEvents m1 \<noteq> [] then m1\<lparr>unresolvedEvents := []\<rparr> else m1);
            (m3, sigs) = (if resolvedEvents m2 \<noteq> [] then mergeResolved m2 else (m2, []))
        in (m3, sigs @ (if resolved then [ModelUpdated, ResolvingChanged] else [])))"

text \<open>
  The constructor (lines 59-66). The category mask and the limit are set by
  \<open>EventModelPrivate\<close>, outside the sources, and are parameters here.
\<close>

definition newModel :: "Env \<Rightarrow> int \<Rightarrow> int \<Rightarrow> Model" where
  "newModel env categoryMask limit =
     \<lparr>eventCategoryMask = categoryMask, queryLimit = limit,
      requiredProperty = NoPropertyRequired env, excludeFavorites = False, addressFlags = 0,
      unresolvedEvents = [], resolvedEvents = [], resolvedContactIds = [], rows = []\<rparr>"

text \<open>
  \<open>RecentContactsModel::setRequiredProperty\<close> (lines 331-348); first the local
  \<open>addressFlags\<close> of lines 335-341.
\<close>

definition requiredAddressFlags :: "Env \<Rightarrow> int \<Rightarrow> 64 word" where
  "requiredAddressFlags env rp =
     (let flags0 = (0 :: 64 word);
          flags1 = (if (rp AND PhoneNumberRequired env) \<noteq> 0 then flags0 OR HasPhoneNumber env
                    else flags0);
          flags2 = (if (rp AND EmailAddressRequired env) \<noteq> 0 then flags1 OR HasEmailAddress env
                    else flags1);
          flags3 = (if (rp AND AccountUriRequired env) \<noteq> 0 then flags2 OR HasOnlineAccount env
                    else flags2)
      in flags3)"

definition setRequiredProperty :: "Env \<Rightarrow> int \<Rightarrow> Model \<Rightarrow> Model \<times> signal list" where
  "setRequiredProperty env rp m =
     (let m' = m\<lparr>addressFlags := requiredAddressFlags env rp\<rparr>
      in if requiredProperty m' \<noteq> rp
         then (m'\<lparr>requiredProperty := rp\<rparr>, [RequiredPropertyChanged])
         else (m', []))"

text \<open>\<open>RecentContactsModel::setExcludeFavorites\<close> (lines 356-363).\<close>

definition setExcludeFavorites :: "bool \<Rightarrow> Model \<Rightarrow> Model \<times> signal list" where
  "setExcludeFavorites exclude m =
     (if excludeFavorites m \<noteq> exclude
      then (m\<lparr>excludeFavorites := exclude\<rparr>, [ExcludeFavoritesChanged])
      else (m, []))"

text \<open>
  The calls a client and the event source make on the model, and a run of them. Each
  \<open>PrependEvents\<close> comes with the directory as it is during that call.
\<close>

datatype call =
    PrependEvents Directory "Event list" bool
  | SetRequiredProperty int
  | SetExcludeFavorites bool

fun runCall :: "Env \<Rightarrow> call \<Rightarrow> Model \<Rightarrow> Model" where
  "runCall env (PrependEvents dir events resolved) m = fst (prependEvents env dir events resolved m)"
| "runCall env (SetRequiredProperty rp) m = fst (setRequiredProperty env rp m)"
| "runCall env (SetExcludeFavorites exclude) m = fst (setExcludeFavorites exclude m)"

fun runCalls :: "Env \<Rightarrow> call list \<Rightarrow> Model \<Rightarrow> Model" where
  "runCalls env [] m = m"
| "runCalls env (c # cs) m = runCalls env cs (runCall env c m)"

section \<open>Contact resolver\<close>

text \<open>
  Modelled from the spec: \<open>recipient.cpp\<close> is not in the sources. Two recipients are equal
  iff their \<open>(localUid, remoteUid)\<close> pairs are, and the outcome of a resolution is shared by
  all \<open>Recipient\<close> instances of one pair; so the recipients' private data is a store from
  the pair to the outcome, \<open>isContactResolved\<close> reads it and \<open>setResolved\<close> writes it. An
  outcome \<open>ResolvedTo None\<close> is "resolved to nothing".
\<close>

datatype resolution = Unresolved | ResolvedTo "CacheItem option"

type_synonym RecipientKey = "string \<times> string"

definition recipientKey :: "Recipient \<Rightarrow> RecipientKey" where
  "recipientKey r = (localUid r, remoteUid r)"

datatype error = AssertionFailed

text \<open>
  \<open>ContactResolverPrivate\<close>: \<open>pending\<close> (a \<open>QSet<Recipient>\<close>, here the list of its
  entries), \<open>resolving\<close> and \<open>forceResolving\<close>; with them the recipients' shared data, the
  resolve requests sent to the directory so far, the number of \<open>checkIfFinished\<close>
  invocations waiting in the event queue (\<open>Qt::QueuedConnection\<close>) and the number of
  \<open>finished\<close> signals emitted so far.
\<close>

record Resolver =
  pending :: "Recipient list"
  resolving :: bool
  forceResolving :: bool
  shared :: "RecipientKey \<Rightarrow> resolution"
  lookups :: "Recipient list"
  queued :: nat
  finished :: nat

definition newResolver :: "Resolver" where
  "newResolver = \<lparr>pending = [], resolving = False, forceResolving = False,
                    shared = (\<lambda>_. Unresolved), lookups = [], queued = 0, finished = 0\<rparr>"

definition isContactResolved :: "Resolver \<Rightarrow> Recipient \<Rightarrow> bool" where
  "isContactResolved st r = (shared st (recipientKey r) \<noteq> Unresolved)"

definition setResolved :: "Recipient \<Rightarrow> CacheItem option \<Rightarrow> Resolver \<Rightarrow> Resolver" where
  "setResolved r item st = st\<lparr>shared := (shared st)(recipientKey r := ResolvedTo item)\<rparr>"

definition pendingContains :: "Resolver \<Rightarrow> RecipientKey \<Rightarrow> bool" where
  "pendingContains st k = (k \<in> recipientKey ` set (pending st))"

definition pendingErase :: "RecipientKey \<Rightarrow> Resolver \<Rightarrow> Resolver" where
  "pendingErase k st = st\<lparr>pending := filter (\<lambda>p. recipientKey p \<noteq> k) (pending st)\<rparr>"

text \<open>
  \<open>ContactResolverPrivate::resolve\<close> (lines 120-147); first the request to the directory
  of lines 135-140. The \<open>Q_ASSERT\<close> of line 125 ends the process when it is compiled in.
\<close>

definition directoryLookup :: "Env \<Rightarrow> Directory \<Rightarrow> Recipient \<Rightarrow> CacheItem option" where
  "directoryLookup env dir r =
     (if isPhoneNumber env r then resolvePhoneNumber dir (remoteUid r)
      else resolveOnlineAccount dir (localUid r) (remoteUid r))"

definition resolve :: "Env \<Rightarrow> Directory \<Rightarrow> Recipient \<Rightarrow> Resolver \<Rightarrow> error + Resolver" where
  "resolve env dir r st =
     (if \<not> forceResolving st \<and> isContactResolved st r then Inr st
      else if assertsEnabled env \<and> localUid r = [] then Inl AssertionFailed
      else if localUid r = [] \<or> remoteUid r = [] then Inr (setResolved r None st)
      else if pendingContains st (recipientKey r) then Inr st
      else
        let item = directoryLookup env dir r;
            st' = st\<lparr>lookups := lookups st @ [r]\<rparr>
        in case item of
             Some i \<Rightarrow> Inr (setResolved r (Some i) st')
           | None \<Rightarrow> Inr (st'\<lparr>pending := pending st' @ [r]\<rparr>))"

text \<open>\<open>ContactResolverPrivate::checkIfFinishedAsynchronously\<close> (lines 149-160).\<close>

definition checkIfFinishedAsynchronously :: "Resolver \<Rightarrow> Resolver" where
  "checkIfFinishedAsynchronously st =
     (if \<not> resolving st then
        let st' = st\<lparr>resolving := True\<rparr>
        in if pending st' = [] then st'\<lparr>queued := queued st' + 1\<rparr> else st'
      else st)"

text \<open>\<open>ContactResolverPrivate::checkIfFinished\<close> (lines 162-171).\<close>

definition checkIfFinished :: "Resolver \<Rightarrow> Resolver \<times> bool" where
  "checkIfFinished st =
     (if resolving st \<and> pending st = []
      then (st\<lparr>resolving := False, finished := finished st + 1\<rparr>, True)
      else (st, False))"

text \<open>\<open>ContactResolver::add\<close>, for one recipient (lines 93-98) and for a list (lines 100-118).\<close>

definition add :: "Env \<Rightarrow> Directory \<Rightarrow> Recipient \<Rightarrow> Resolver \<Rightarrow> error + Resolver" where
  "add env dir r st =
     (case resolve env dir r st of
        Inl e \<Rightarrow> Inl e
      | Inr st' \<Rightarrow> Inr (checkIfFinishedAsynchronously st'))"

fun resolveEach :: "Env \<Rightarrow> Directory \<Rightarrow> Recipient list \<Rightarrow> Resolver \<Rightarrow> error + Resolver" where
  "resolveEach env dir [] st = Inr st"
| "resolveEach env dir (r # rs) st =
     (case resolve env dir r st of
        Inl e \<Rightarrow> Inl e
      | Inr st' \<Rightarrow> resolveEach env dir rs st')"

definition addList :: "Env \<Rightarrow> Directory \<Rightarrow> Recipient list \<Rightarrow> Resolver \<Rightarrow> error + Resolver" where
  "addList env dir rs st =
     (case resolveEach env dir rs st of
        Inl e \<Rightarrow> Inl e
      | Inr st' \<Rightarrow> Inr (checkIfFinishedAsynchronously st'))"

text \<open>
  Lines 182-190: the loop over the pending set. Each entry that matches the phone number is
  resolved with its own \<open>itemByPhoneNumber\<close> lookup and erased.
\<close>

fun resolveMatching :: "Env \<Rightarrow> Directory \<Rightarrow> string \<Rightarrow> Recipient list \<Rightarrow> Resolver \<Rightarrow> Resolver" where
  "resolveMatching env dir phoneNumber [] st = st"
| "resolveMatching env dir phoneNumber (it # its) st =
     (if matchesPhoneNumber env it phoneNumber then
        resolveMatching env dir phoneNumber its
          (pendingErase (recipientKey it)
             (setResolved it (itemByPhoneNumber dir (remoteUid it)) st))
      else resolveMatching env dir phoneNumber its st)"

text \<open>\<open>ContactResolverPrivate::addressResolved\<close> (lines 173-200).\<close>

definition addressResolved ::
  "Env \<Rightarrow> Directory \<Rightarrow> string \<Rightarrow> string \<Rightarrow> CacheItem option \<Rightarrow> Resolver \<Rightarrow> Resolver" where
  "addressResolved env dir first second item st =
     (if second = [] then st
      else if first = [] then
        fst (checkIfFinished
               (resolveMatching env dir (phoneNumberMatchDetails env second) (pending st) st))
      else
        case find (\<lambda>p. recipientKey p = (first, second)) (pending st) of
          Some it \<Rightarrow>
            fst (checkIfFinished (pendingErase (recipientKey it) (setResolved it item st)))
        | None \<Rightarrow> fst (checkIfFinished st))"

text \<open>The event loop delivers one queued \<open>checkIfFinished\<close> invocation.\<close>

definition deliverQueued :: "Resolver \<Rightarrow> Resolver" where
  "deliverQueued st =
     (if queued st = 0 then st
      else fst (checkIfFinished (st\<lparr>queued := queued st - 1\<rparr>)))"

text \<open>What can happen to a resolver, and a run of such steps; an assertion failure ends it.\<close>

datatype step =
    Add Directory Recipient
  | AddList Directory "Recipient list"
  | AddressResolved Directory string string "CacheItem option"
  | DeliverQueued
  | SetForceResolving bool

fun runStep :: "Env \<Rightarrow> step \<Rightarrow> Resolver \<Rightarrow> error + Resolver" where
  "runStep env (Add dir r) st = add env dir r st"
| "runStep env (AddList dir rs) st = addList env dir rs st"
| "runStep env (AddressResolved dir first second item) st =
     Inr (addressResolved env dir first second item st)"
| "runStep env DeliverQueued st = Inr (deliverQueued st)"
| "runStep env (SetForceResolving enabled) st = Inr (st\<lparr>forceResolving := enabled\<rparr>)"

fun runSteps :: "Env \<Rightarrow> step list \<Rightarrow> Resolver \<Rightarrow> error + Resolver" where
  "runSteps env [] st = Inr st"
| "runSteps env (s # ss) st =
     (case runStep env s st of
        Inl e \<Rightarrow> Inl e
      | Inr st' \<Rightarrow> runSteps env ss st')"

section \<open>Common utilities\<close>

text \<open>\<open>localUidComparesPhoneNumbers\<close> of \<open>commonutils.cpp\<close>, for a given \<open>RING_ACCOUNT\<close>.\<close>

definition localUidComparesPhoneNumbers :: "string \<Rightarrow> string \<Rightarrow> bool" where
  "localUidComparesPhoneNumbers ringAccount uid = (take (length ringAccount) uid = ringAccount)"

section \<open>Invariants\<close>

text \<open>
  The invariants of the model: the rows and the accepted events each have distinct contacts
  and the claimed contact ids are those of the accepted events; the rows are within the
  limit and the accepted events below it.
\<close>

definition contactsInv :: "Model \<Rightarrow> bool" where
  "contactsInv m =
     (distinct (map eventContact (rows m))
      \<and> distinct (map eventContact (resolvedEvents m))
      \<and> set (resolvedContactIds m) = eventContact ` set (resolvedEvents m))"

definition limitInv :: "Model \<Rightarrow> bool" where
  "limitInv m =
     (int (length (rows m)) \<le> queryLimit m \<and> int (length (resolvedEvents m)) < queryLimit m)"

text \<open>
  The invariant of the resolver: when it is not resolving nothing is pending, and when it is
  resolving with nothing pending a \<open>checkIfFinished\<close> invocation is waiting in the queue.
\<close>

definition resolverInv :: "Resolver \<Rightarrow> bool" where
  "resolverInv st =
     ((resolving st \<or> pending st = []) \<and> (\<not> resolving st \<or> pending st \<noteq> [] \<or> 0 < queued st))"

text \<open>
  A pair is addressed when neither uid is empty. Second invariant of the resolver: pending
  recipients are addressed, and only addressed recipients are resolved to a contact.
\<close>

definition addressed :: "RecipientKey \<Rightarrow> bool" where
  "addressed k = (fst k \<noteq> [] \<and> snd k \<noteq> [])"

definition addressedInv :: "Resolver \<Rightarrow> bool" where
  "addressedInv st =
     (list_all (\<lambda>p. addressed (recipientKey p)) (pending st)
      \<and> (\<forall>k item. shared st k = ResolvedTo (Some item) \<longrightarrow> addressed k))"

section \<open>Sample inputs\<close>

text \<open>
  An environment with the usual values of the constants, phone numbers compared by their
  digits, and assertions compiled out; the same with assertions compiled in; and a directory
  with an empty cache.
\<close>

definition digitsOf :: "string \<Rightarrow> string" where
  "digitsOf s = filter (\<lambda>c. c \<in> set ''0123456789'') s"

definition sampleEnv :: Env where
  "sampleEnv =
     \<lparr>AnyCategory = - 1, NoPropertyRequired = 0, PhoneNumberRequired = 1,
      EmailAddressRequired = 2, AccountUriRequired = 4,
      HasPhoneNumber = 1, HasEmailAddress = 2, HasOnlineAccount = 4,
      isPhoneNumber = (\<lambda>r. localUidComparesPhoneNumbers ''ring/tel'' (localUid r)),
      phoneNumberMatchDetails = digitsOf,
      matchesPhoneNumber = (\<lambda>r number. digitsOf (remoteUid r) = number),
      assertsEnabled = False\<rparr>"

definition debugEnv :: Env where
  "debugEnv = sampleEnv\<lparr>assertsEnabled := True\<rparr>"

definition emptyDirectory :: Directory where
  "emptyDirectory =
     \<lparr>existingItem = (\<lambda>_. None), matchesAddressFlags = (\<lambda>_ _. True),
      resolvePhoneNumber = (\<lambda>_. None), resolveOnlineAccount = (\<lambda>_ _. None),
      itemByPhoneNumber = (\<lambda>_. None)\<rparr>"

definition sampleEvent :: "int \<Rightarrow> int \<Rightarrow> int \<Rightarrow> Event" where
  "sampleEvent i c t =
     \<lparr>eventId = i, endTime = t, category = 1,
      recipient = \<lparr>localUid = ''ring/tel/account0'', remoteUid = ''+1555'', contactId = c\<rparr>\<rparr>"

text \<open>The scenario of the specification: a given list of rows, limit 2, nothing queued.\<close>

definition withContact :: "int \<Rightarrow> Event \<Rightarrow> Event" where
  "withContact c e = e\<lparr>recipient := (recipient e)\<lparr>contactId := c\<rparr>\<rparr>"

definition scenarioModel :: "Env \<Rightarrow> Event list \<Rightarrow> Model \<Rightarrow> Model" where
  "scenarioModel env rs m =
     m\<lparr>eventCategoryMask := AnyCategory env, queryLimit := 2, excludeFavorites := False,
       addressFlags := 0, unresolvedEvents := [], resolvedEvents := [],
       resolvedContactIds := [], rows := rs\<rparr>"

text \<open>A new model with limit 2 and one event queued for resolution.\<close>

definition queuedModel :: Model where
  "queuedModel = (newModel sampleEnv (- 1) 2)\<lparr>unresolvedEvents := [sampleEvent 2 0 9]\<rparr>"

text \<open>A new model after two setter calls.\<close>

definition configuredModel :: Model where
  "configuredModel =
     runCalls sampleEnv [SetRequiredProperty 1, SetExcludeFavorites True]
       (newModel sampleEnv (- 1) 2)"

text \<open>
  A directory whose cache answers every resolve request at once, two recipients, and the
  resolver after both were submitted in one batch to that directory.
\<close>

definition hitDirectory :: Directory where
  "hitDirectory =
     emptyDirectory\<lparr>resolvePhoneNumber := (\<lambda>_. Some \<lparr>iid = 5, isFavorite = False\<rparr>),
                    resolveOnlineAccount := (\<lambda>_ _. Some \<lparr>iid = 6, isFavorite = False\<rparr>)\<rparr>"

definition alice :: Recipient where
  "alice = \<lparr>localUid = ''ring/tel/account0'', remoteUid = ''+1555'', contactId = 0\<rparr>"

definition bob :: Recipient where
  "bob = \<lparr>localUid = ''jabber/account1'', remoteUid = ''bob@example.org'', contactId = 0\<rparr>"

definition afterBatch :: Resolver where
  "afterBatch =
     newResolver\<lparr>resolving := True, queued := 1, lookups := [alice, bob],
       shared := (\<lambda>k. if k = recipientKey bob then ResolvedTo (Some \<lparr>iid = 6, isFavorite = False\<rparr>)
                      else if k = recipientKey alice then ResolvedTo (Some \<lparr>iid = 5, isFavorite = False\<rparr>)
                      else Unresolved)\<rparr>"

text \<open>
  Three phone recipients, two of which have the same digits; a directory whose
  \<open>itemByPhoneNumber\<close> answers each number with its own item; and a resolver with the three
  recipients pending.
\<close>

definition phoneA :: Recipient where
  "phoneA = \<lparr>localUid = ''ring/tel/account0'', remoteUid = ''+1555'', contactId = 0\<rparr>"

definition phoneB :: Recipient where
  "phoneB = \<lparr>localUid = ''ring/tel/account1'', remoteUid = ''+1-555'', contactId = 0\<rparr>"

definition phoneC :: Recipient where
  "phoneC = \<lparr>localUid = ''ring/tel/account0'', remoteUid = ''+1999'', contactId = 0\<rparr>"

definition lengthDirectory :: Directory where
  "lengthDirectory =
     emptyDirectory\<lparr>itemByPhoneNumber := (\<lambda>n. Some \<lparr>iid = int (length n), isFavorite = False\<rparr>)\<rparr>"

definition threePending :: Resolver where
  "threePending = newResolver\<lparr>pending := [phoneA, phoneB, phoneC], resolving := True\<rparr>"

text \<open>The resolver after \<open>alice\<close> alone was resolved from the cache.\<close>

definition afterAlice :: Resolver where
  "afterAlice =
     setResolved alice (Some \<lparr>iid = 5, isFavorite = False\<rparr>) (newResolver\<lparr>lookups := [alice]\<rparr>)"

text \<open>A recipient without a local uid.\<close>

definition noLocalUid :: Recipient where
  "noLocalUid = \<lparr>localUid = [], remoteUid = ''+1555'', contactId = 0\<rparr>"

text \<open>A resolver with one phone recipient pending, and another instance of that recipient.\<close>

definition onePending :: Resolver where
  "onePending = newResolver\<lparr>pending := [phoneA], resolving := True\<rparr>"

definition phoneA' :: Recipient where
  "phoneA' = phoneA\<lparr>contactId := 7\<rparr>"

text \<open>
  Two runs of two resolved batches on a model with limit 2: in the first the second batch
  brings a new contact, in the second it brings a contact that a row already has.
\<close>

definition twoBatches :: "call list" where
  "twoBatches =
     [PrependEvents emptyDirectory [sampleEvent 1 5 10, sampleEvent 2 7 9, sampleEvent 3 5 8] True,
      PrependEvents emptyDirectory [sampleEvent 4 9 20] True]"

definition supersedingBatches :: "call list" where
  "supersedingBatches =
     [PrependEvents emptyDirectory [sampleEvent 1 5 10, sampleEvent 2 7 9, sampleEvent 3 5 8] True,
      PrependEvents emptyDirectory [sampleEvent 5 7 20] True]"

section \<open>Properties of the recent contacts model\<close>

subsection \<open>The ingestion loop leaves the rows and the configuration alone\<close>

lemma ingestEvents_frame:
  "rows (ingestEvents env dir resolved events m) = rows m
   \<and> queryLimit (ingestEvents env dir resolved events m) = queryLimit m
   \<and> eventCategoryMask (ingestEvents env dir resolved events m) = eventCategoryMask m
   \<and> requiredProperty (ingestEvents env dir resolved events m) = requiredProperty m
   \<and> excludeFavorites (ingestEvents env dir resolved events m) = excludeFavorites m
   \<and> addressFlags (ingestEvents env dir resolved events m) = addressFlags m"
  by (induction events arbitrary: m resolved) (simp_all add: Let_def)

subsection \<open>QSet as a list\<close>

lemma qset_insert_set [simp]: "set (qset_insert x s) = insert x (set s)"
  by (auto simp add: qset_insert_def)

lemma qset_insert_distinct [simp]: "distinct (qset_insert x s) = distinct s"
  by (simp add: qset_insert_def)

lemma qset_insert_length:
  "length (qset_insert x s) = (if x \<in> set s then length s else Suc (length s))"
  by (simp add: qset_insert_def)

subsection \<open>The rows to remove\<close>

lemma obsoleteRows_upto:
  "n \<le> length rs \<Longrightarrow>
   distinct (foldl (\<lambda>removeSet row.
              if qset_contains ids (eventContact (rs ! row)) then qset_insert (int row) removeSet
              else removeSet) [] [0..<n])
   \<and> set (foldl (\<lambda>removeSet row.
              if qset_contains ids (eventContact (rs ! row)) then qset_insert (int row) removeSet
              else removeSet) [] [0..<n])
     = {int i |i. i < n \<and> eventContact (rs ! i) \<in> set ids}"
proof (induction n)
  case 0
  then show ?case by simp
next
  case (Suc n)
  then have "n \<le> length rs" by simp
  from Suc.IH [OF this] show ?case
    by (auto simp add: qset_contains_def less_Suc_eq)
qed

lemma obsoleteRows_distinct: "distinct (obsoleteRows ids rs)"
  using obsoleteRows_upto [of "length rs" rs ids] by (simp add: obsoleteRows_def)

lemma obsoleteRows_set:
  "set (obsoleteRows ids rs) = {int i |i. i < length rs \<and> eventContact (rs ! i) \<in> set ids}"
  using obsoleteRows_upto [of "length rs" rs ids] by (simp add: obsoleteRows_def)

lemma skipRemoved_spec:
  "skipRemoved s i \<le> i \<and> skipRemoved s i \<notin> set s
   \<and> (\<forall>j. skipRemoved s i < j \<and> j \<le> i \<longrightarrow> j \<in> set s)"
proof (induction s i rule: skipRemoved.induct)
  case (1 s i)
  show ?case
  proof (cases "qset_contains s i")
    case True
    then have e: "skipRemoved s i = skipRemoved s (i - 1)"
      by (subst skipRemoved.simps) simp
    have m: "i \<in> set s" using True by (simp add: qset_contains_def)
    from "1.IH" [OF True] have ih: "skipRemoved s (i - 1) \<le> i - 1"
      "skipRemoved s (i - 1) \<notin> set s"
      "\<forall>j. skipRemoved s (i - 1) < j \<and> j \<le> i - 1 \<longrightarrow> j \<in> set s"
      by simp_all
    have "\<forall>j. skipRemoved s (i - 1) < j \<and> j \<le> i \<longrightarrow> j \<in> set s"
    proof (intro allI impI)
      fix j assume j: "skipRemoved s (i - 1) < j \<and> j \<le> i"
      show "j \<in> set s"
      proof (cases "j = i")
        case True
        then show ?thesis using m by simp
      next
        case False
        then have "j \<le> i - 1" using j by simp
        then show ?thesis using ih(3) j by simp
      qed
    qed
    then show ?thesis unfolding e using ih(1,2) by simp
  next
    case False
    then have "skipRemoved s i = i" by (subst skipRemoved.simps) simp
    then show ?thesis using False by (auto simp add: qset_contains_def)
  qed
qed

lemma full_removeSet_length:
  assumes "distinct s" and "set s \<subseteq> {0..<n}" and "\<forall>j. 0 \<le> j \<and> j < n \<longrightarrow> j \<in> set s"
  shows "int (length s) = max n 0"
proof -
  have "set s = {0..<n}" using assms(2,3) by auto
  then have "card (set s) = nat n" by simp
  then have "length s = nat n" using assms(1) by (simp add: distinct_card)
  then show ?thesis by simp
qed

lemma trimLoop_spec:
  assumes "distinct s" and "set s \<subseteq> {0..<n}" and "i < n"
    and "\<forall>j. i < j \<and> j < n \<longrightarrow> j \<in> set s"
  shows "distinct (trimLoop t i s) \<and> set s \<subseteq> set (trimLoop t i s)
       \<and> set (trimLoop t i s) \<subseteq> {0..<n}
       \<and> (int (length (trimLoop t i s)) = int (length s) + max t 0
           \<or> int (length (trimLoop t i s)) = max n 0)"
  using assms
proof (induction t i s rule: trimLoop.induct)
  case (1 t i s)
  show ?case
  proof (cases "t > 0")
    case False
    then have "trimLoop t i s = s" by (subst trimLoop.simps) simp
    then show ?thesis using "1.prems" False by simp
  next
    case True
    let ?r = "skipRemoved s i"
    from skipRemoved_spec [of s i] have r: "?r \<le> i" "?r \<notin> set s"
      "\<forall>j. ?r < j \<and> j \<le> i \<longrightarrow> j \<in> set s" by simp_all
    have above: "\<forall>j. ?r < j \<and> j < n \<longrightarrow> j \<in> set s"
    proof (intro allI impI)
      fix j assume j: "?r < j \<and> j < n"
      show "j \<in> set s"
      proof (cases "j \<le> i")
        case True
        then show ?thesis using r(3) j by simp
      next
        case False
        then show ?thesis using "1.prems"(4) j by simp
      qed
    qed
    show ?thesis
    proof (cases "?r < 0")
      case neg: True
      then have e: "trimLoop t i s = s" using True by (subst trimLoop.simps) (simp add: Let_def)
      have "\<forall>j. 0 \<le> j \<and> j < n \<longrightarrow> j \<in> set s" using above neg by auto
      from full_removeSet_length [OF "1.prems"(1,2) this]
      show ?thesis unfolding e using "1.prems" by simp
    next
      case nonneg: False
      let ?s = "qset_insert ?r s"
      have e: "trimLoop t i s = trimLoop (t - 1) (?r - 1) ?s"
        using True nonneg by (subst trimLoop.simps) (simp add: Let_def)
      have p1: "distinct ?s" using "1.prems"(1) by simp
      have p2: "set ?s \<subseteq> {0..<n}" using "1.prems"(2,3) r(1) nonneg by auto
      have p3: "?r - 1 < n" using r(1) "1.prems"(3) by simp
      have p4: "\<forall>j. ?r - 1 < j \<and> j < n \<longrightarrow> j \<in> set ?s"
      proof (intro allI impI)
        fix j assume j: "?r - 1 < j \<and> j < n"
        show "j \<in> set ?s"
        proof (cases "j = ?r")
          case True
          then show ?thesis by simp
        next
          case False
          then have "?r < j" using j by simp
          then show ?thesis using above j by simp
        qed
      qed
      have nn: "\<not> ?r < 0" using nonneg .
      from "1.IH" [OF True refl nn p1 p2 p3 p4]
      have ih: "distinct (trimLoop (t - 1) (?r - 1) ?s)"
        "set ?s \<subseteq> set (trimLoop (t - 1) (?r - 1) ?s)"
        "set (trimLoop (t - 1) (?r - 1) ?s) \<subseteq> {0..<n}"
        "int (length (trimLoop (t - 1) (?r - 1) ?s)) = int (length ?s) + max (t - 1) 0
         \<or> int (length (trimLoop (t - 1) (?r - 1) ?s)) = max n 0"
        by simp_all
      have len: "int (length ?s) + max (t - 1) 0 = int (length s) + max t 0"
        using r(2) True by (simp add: qset_insert_length)
      show ?thesis unfolding e using ih len by auto
    qed
  qed
qed

subsection \<open>Removing the rows\<close>

lemma removeRange_spec:
  "0 \<le> start \<Longrightarrow> start \<le> endRow + 1 \<Longrightarrow> endRow < int (length rs) \<Longrightarrow>
   removeRange rs start endRow = take (nat start) rs @ drop (nat (endRow + 1)) rs"
proof (induction rs start endRow rule: removeRange.induct)
  case (1 rs start endRow)
  show ?case
  proof (cases "endRow \<ge> start")
    case False
    then have e: "endRow + 1 = start" using "1.prems" by simp
    have "removeRange rs start endRow = rs" using False by (subst removeRange.simps) simp
    then show ?thesis unfolding e by simp
  next
    case True
    let ?rs = "removeAt rs endRow"
    have ra: "?rs = take (nat endRow) rs @ drop (Suc (nat endRow)) rs"
      using True "1.prems" by (simp add: removeAt_def)
    have len: "int (length ?rs) = int (length rs) - 1"
      unfolding ra using True "1.prems" by (simp add: min_def)
    have "removeRange rs start endRow = removeRange ?rs start (endRow - 1)"
      using True by (subst removeRange.simps) simp
    also have "\<dots> = take (nat start) ?rs @ drop (nat (endRow - 1 + 1)) ?rs"
      using True "1.prems" len by (intro "1.IH") simp_all
    also have "take (nat start) ?rs = take (nat start) rs"
      unfolding ra using True "1.prems" by (simp add: min_def)
    also have "drop (nat (endRow - 1 + 1)) ?rs = drop (nat (endRow + 1)) rs"
      unfolding ra using True "1.prems" by (simp add: nat_add_distrib)
    finally show ?thesis .
  qed
qed

lemma consecutiveCountLoop_spec:
  assumes "k \<le> c" and "\<forall>j<k. xs ! (c - 1 - j) = e - int j"
  shows "consecutiveCountLoop xs c e k \<le> c
       \<and> (\<forall>j < consecutiveCountLoop xs c e k. xs ! (c - 1 - j) = e - int j)"
  using assms
proof (induction xs c e k rule: consecutiveCountLoop.induct)
  case (1 xs c e k)
  show ?case
  proof (cases "int c - int k > 0 \<and> xs ! (c - 1 - k) = e - int k")
    case True
    then have eq: "consecutiveCountLoop xs c e k = consecutiveCountLoop xs c e (k + 1)"
      by (subst consecutiveCountLoop.simps) simp
    have a: "k + 1 \<le> c" using True by simp
    have b: "\<forall>j<k + 1. xs ! (c - 1 - j) = e - int j"
      using "1.prems"(2) True by (auto simp add: less_Suc_eq)
    have c1: "0 < int c - int k" using True by simp
    have c2: "\<not> xs ! (c - 1 - k) \<noteq> e - int k" using True by simp
    from "1.IH" [OF c1 c2 a b] show ?thesis unfolding eq .
  next
    case False
    then have "consecutiveCountLoop xs c e k = k"
      by (subst consecutiveCountLoop.simps) auto
    then show ?thesis using "1.prems" by simp
  qed
qed

lemma nths_cong_length:
  "(\<And>i. i < length xs \<Longrightarrow> (i \<in> A) = (i \<in> B)) \<Longrightarrow> nths xs A = nths xs B"
proof (induction xs rule: rev_induct)
  case Nil
  then show ?case by simp
next
  case (snoc x xs)
  have "nths xs A = nths xs B" using snoc.prems by (intro snoc.IH) simp
  moreover have "(length xs \<in> A) = (length xs \<in> B)" using snoc.prems by simp
  ultimately show ?case by (simp add: nths_append)
qed

text \<open>Removing the rows of one run, all above the other indices still to remove.\<close>

lemma nths_remove_run:
  assumes "a \<le> b" and "b \<le> length rs" and "\<forall>x \<in> S. x < a"
  shows "nths rs {i. i \<notin> S \<and> \<not> (a \<le> i \<and> i < b)} = nths (take a rs @ drop b rs) {i. i \<notin> S}"
proof -
  have split: "rs = take a rs @ (take (b - a) (drop a rs) @ drop b rs)"
    using assms(1,2)
    by (metis append_take_drop_id drop_drop le_add_diff_inverse2)
  have la: "length (take a rs) = a" using assms(1,2) by simp
  have lm: "length (take (b - a) (drop a rs)) = b - a" using assms(1,2) by simp
  let ?T = "{i. i \<notin> S \<and> \<not> (a \<le> i \<and> i < b)}"
  have "nths rs ?T = nths (take a rs @ (take (b - a) (drop a rs) @ drop b rs)) ?T"
    using split by simp
  also have "\<dots> = nths (take a rs) ?T
                  @ nths (take (b - a) (drop a rs)) {j. j + a \<in> ?T}
                  @ nths (drop b rs) {j. j + (b - a) \<in> {j. j + a \<in> ?T}}"
    by (simp only: nths_append la lm)
  also have "nths (take (b - a) (drop a rs)) {j. j + a \<in> ?T} = []"
  proof -
    have "nths (take (b - a) (drop a rs)) {j. j + a \<in> ?T} = nths (take (b - a) (drop a rs)) {}"
      by (rule nths_cong_length) (use lm in auto)
    then show ?thesis by simp
  qed
  also have "nths (drop b rs) {j. j + (b - a) \<in> {j. j + a \<in> ?T}} = drop b rs"
  proof (rule nths_all, intro allI impI)
    fix i assume "i < length (drop b rs)"
    have "i + (b - a) + a = i + b" using assms(1) by simp
    moreover have "i + b \<notin> S" using assms(1,3) by auto
    ultimately show "i \<in> {j. j + (b - a) \<in> {j. j + a \<in> ?T}}" by simp
  qed
  also have "nths (take a rs) ?T = nths (take a rs) {i. i \<notin> S}"
    by (rule nths_cong_length) (use la in auto)
  finally have lhs: "nths rs ?T = nths (take a rs) {i. i \<notin> S} @ drop b rs" by simp
  have "nths (take a rs @ drop b rs) {i. i \<notin> S}
        = nths (take a rs) {i. i \<notin> S} @ nths (drop b rs) {j. j + a \<in> {i. i \<notin> S}}"
    by (simp only: nths_append la)
  also have "nths (drop b rs) {j. j + a \<in> {i. i \<notin> S}} = drop b rs"
    by (rule nths_all) (use assms(3) in auto)
  finally show ?thesis using lhs by simp
qed

lemma removeRowsLoop_rows:
  assumes "sorted_wrt (<) xs" and "\<forall>x \<in> set xs. 0 \<le> x \<and> x < int (length rs)"
  shows "fst (removeRowsLoop xs rs sigs) = nths rs {i. int i \<notin> set xs}"
  using assms
proof (induction xs rs sigs rule: removeRowsLoop.induct)
  case (1 xs rs sigs)
  show ?case
  proof (cases "length xs \<noteq> 0")
    case False
    then have "removeRowsLoop xs rs sigs = (rs, sigs)" by (subst removeRowsLoop.simps) simp
    moreover have "nths rs {i. int i \<notin> set xs} = rs" using False by (intro nths_all) simp
    ultimately show ?thesis by simp
  next
    case ne: True
    let ?c = "length xs"
    let ?e = "last xs"
    let ?k = "consecutiveCountLoop xs ?c ?e 1"
    let ?s = "?e - int ?k + 1"
    let ?xs = "take (?c - ?k) xs"
    let ?rs = "removeRange rs ?s ?e"
    have xs_ne: "xs \<noteq> []" using ne by simp
    have k1: "1 \<le> ?k" by (rule consecutiveCountLoop_ge)
    have "\<forall>j<1. xs ! (?c - 1 - j) = ?e - int j"
      using xs_ne by (simp add: last_conv_nth)
    with consecutiveCountLoop_spec [of 1 ?c xs ?e] ne
    have kc: "?k \<le> ?c" and run: "\<forall>j < ?k. xs ! (?c - 1 - j) = ?e - int j"
      by simp_all
    have step: "removeRowsLoop xs rs sigs = removeRowsLoop ?xs ?rs (sigs @ [RemoveRows ?s ?e])"
      using ne by (subst removeRowsLoop.simps) (simp add: Let_def)
    have first: "xs ! (?c - ?k) = ?s"
    proof -
      have "?k - 1 < ?k" using k1 by simp
      with run have "xs ! (?c - 1 - (?k - 1)) = ?e - int (?k - 1)" by blast
      moreover have "?c - 1 - (?k - 1) = ?c - ?k" using k1 kc by simp
      ultimately show ?thesis using k1 by (simp add: of_nat_diff)
    qed
    have e_in: "?e \<in> set xs" using xs_ne by simp
    have e_bound: "?e < int (length rs)" "0 \<le> ?e" using "1.prems"(2) e_in by simp_all
    have s_in: "?s \<in> set xs"
    proof -
      have "?c - ?k < length xs" using k1 ne by simp
      then have "xs ! (?c - ?k) \<in> set xs" by (rule nth_mem)
      then show ?thesis using first by simp
    qed
    have s0: "0 \<le> ?s" using "1.prems"(2) s_in by blast
    have se: "?s \<le> ?e + 1" using k1 by simp
    have below: "\<forall>x \<in> set ?xs. x < ?s"
    proof
      fix x assume "x \<in> set ?xs"
      then obtain p where p: "p < ?c - ?k" "x = xs ! p"
        by (auto simp add: in_set_conv_nth)
      have "?c - ?k < length xs" using k1 ne by simp
      with "1.prems"(1) p(1) have "xs ! p < xs ! (?c - ?k)"
        by (rule sorted_wrt_nth_less)
      then show "x < ?s" using p(2) first by simp
    qed
    have tail: "set (drop (?c - ?k) xs) = {?s..?e}"
    proof (intro set_eqI iffI)
      fix v assume "v \<in> set (drop (?c - ?k) xs)"
      then obtain q where q: "q < ?k" "v = xs ! (?c - ?k + q)"
        using kc by (auto simp add: in_set_conv_nth)
      let ?j = "?k - 1 - q"
      have j: "?j < ?k" using q(1) by simp
      have "?c - 1 - ?j = ?c - ?k + q" using q(1) kc by simp
      with run j have "v = ?e - int ?j" using q(2) by metis
      then show "v \<in> {?s..?e}" using q(1) by (simp add: of_nat_diff)
    next
      fix v assume v: "v \<in> {?s..?e}"
      let ?j = "nat (?e - v)"
      have j: "?j < ?k" using v by auto
      with run have "xs ! (?c - 1 - ?j) = ?e - int ?j" by blast
      then have "xs ! (?c - 1 - ?j) = v" using v by simp
      moreover have "?c - 1 - ?j = ?c - ?k + (?k - 1 - ?j)" using j kc by simp
      moreover have "?c - ?k + (?k - 1 - ?j) < length xs" using j kc k1 by simp
      ultimately have "v = xs ! (?c - ?k + (?k - 1 - ?j))" by simp
      moreover have "?k - 1 - ?j < length (drop (?c - ?k) xs)" using j kc by simp
      ultimately show "v \<in> set (drop (?c - ?k) xs)"
        by (metis nth_drop nth_mem diff_le_self)
    qed
    have set_xs: "set xs = set ?xs \<union> {?s..?e}"
    proof -
      have "set xs = set (?xs @ drop (?c - ?k) xs)" by simp
      then show ?thesis unfolding set_append tail .
    qed
    have rs': "?rs = take (nat ?s) rs @ drop (nat (?e + 1)) rs"
      using s0 se e_bound by (intro removeRange_spec) simp_all
    have len_rs': "int (length ?rs) \<ge> ?s"
      unfolding rs' using s0 se e_bound by simp
    have p1: "sorted_wrt (<) ?xs" using "1.prems"(1) by (rule sorted_wrt_take)
    have p2: "\<forall>x \<in> set ?xs. 0 \<le> x \<and> x < int (length ?rs)"
    proof
      fix x assume x: "x \<in> set ?xs"
      then have "x \<in> set xs" by (rule in_set_takeD)
      then have "0 \<le> x" using "1.prems"(2) by blast
      moreover have "x < ?s" using below x by blast
      ultimately show "0 \<le> x \<and> x < int (length ?rs)" using len_rs' by simp
    qed
    have ih: "fst (removeRowsLoop ?xs ?rs (sigs @ [RemoveRows ?s ?e])) = nths ?rs {i. int i \<notin> set ?xs}"
      using "1.IH" [OF ne refl refl refl refl p1 p2] .
    let ?S = "{i. int i \<in> set ?xs}"
    have ab: "nat ?s \<le> nat (?e + 1)" "nat (?e + 1) \<le> length rs" "\<forall>x \<in> ?S. x < nat ?s"
      using se s0 e_bound below by auto
    have sets: "{i. int i \<notin> set xs} = {i. i \<notin> ?S \<and> \<not> (nat ?s \<le> i \<and> i < nat (?e + 1))}"
      unfolding set_xs using s0 e_bound by auto
    have fin: "nths rs {i. int i \<notin> set xs} = nths (take (nat ?s) rs @ drop (nat (?e + 1)) rs) {i. i \<notin> ?S}"
      unfolding sets by (rule nths_remove_run [OF ab])
    have "fst (removeRowsLoop xs rs sigs)
          = fst (removeRowsLoop ?xs ?rs (sigs @ [RemoveRows ?s ?e]))"
      by (simp only: step)
    also have "\<dots> = nths ?rs {i. int i \<notin> set ?xs}" by (rule ih)
    also have "\<dots> = nths (take (nat ?s) rs @ drop (nat (?e + 1)) rs) {i. int i \<notin> set ?xs}"
      by (simp only: rs')
    also have "\<dots> = nths (take (nat ?s) rs @ drop (nat (?e + 1)) rs) {i. i \<notin> ?S}"
      by simp
    also have "\<dots> = nths rs {i. int i \<notin> set xs}" by (rule fin [symmetric])
    finally show ?thesis .
  qed
qed

lemma insertLoop_spec:
  "k \<le> length rs \<Longrightarrow> insertLoop k es rs = take k rs @ es @ drop k rs"
proof (induction es arbitrary: k rs)
  case Nil
  then show ?case by simp
next
  case (Cons e es)
  have "Suc k \<le> length (insertChildAt k e rs)"
    using Cons.prems by (simp add: insertChildAt_def)
  from Cons.IH [OF this] show ?case
    using Cons.prems by (simp add: insertChildAt_def min_def)
qed

lemma kept_rows_length:
  assumes "distinct s" and "set s \<subseteq> {0..<int n}"
  shows "card {i. i < n \<and> int i \<notin> set s} = n - length s"
proof -
  have "{i. i < n \<and> int i \<notin> set s} = {..<n} - nat ` set s"
  proof (intro set_eqI iffI)
    fix i assume "i \<in> {i. i < n \<and> int i \<notin> set s}"
    then have i: "i < n" "int i \<notin> set s" by simp_all
    have "i \<notin> nat ` set s"
    proof
      assume "i \<in> nat ` set s"
      then obtain x where x: "x \<in> set s" "i = nat x" by blast
      then have "0 \<le> x" using assms(2) by auto
      then have "int i = x" using x(2) by simp
      then show False using i(2) x(1) by simp
    qed
    then show "i \<in> {..<n} - nat ` set s" using i(1) by simp
  next
    fix i assume "i \<in> {..<n} - nat ` set s"
    then have i: "i < n" "i \<notin> nat ` set s" by simp_all
    have "int i \<notin> set s"
    proof
      assume "int i \<in> set s"
      then have "nat (int i) \<in> nat ` set s" by (rule imageI)
      then show False using i(2) by simp
    qed
    then show "i \<in> {i. i < n \<and> int i \<notin> set s}" using i(1) by simp
  qed
  moreover have "nat ` set s \<subseteq> {..<n}"
  proof
    fix i assume "i \<in> nat ` set s"
    then obtain x where x: "x \<in> set s" "i = nat x" by blast
    then have "0 \<le> x \<and> x < int n" using assms(2) by auto
    then show "i \<in> {..<n}" using x(2) by auto
  qed
  moreover have "card (nat ` set s) = length s"
  proof -
    have "inj_on nat (set s)"
    proof (rule inj_onI)
      fix x y assume xy: "x \<in> set s" "y \<in> set s" "nat x = nat y"
      then have "0 \<le> x" "0 \<le> y" using assms(2) by auto
      then show "x = y" using xy(3) by simp
    qed
    then have "card (nat ` set s) = card (set s)" by (rule card_image)
    then show ?thesis using assms(1) by (simp add: distinct_card)
  qed
  ultimately show ?thesis by (simp add: card_Diff_subset)
qed

subsection \<open>Line 256 within 32 bits\<close>

text \<open>
  With a limit between 0 and \<open>2 ^ 30\<close>, and rows and accepted events within the limit (as
  they are whenever the merge runs in a reachable state), every value that line 256 computes
  on the way to \<open>trimCount\<close> is in the range of a 32-bit \<open>int\<close>.
\<close>

lemma obsoleteRows_length: "length (obsoleteRows ids rs) \<le> length rs"
proof -
  have "set (obsoleteRows ids rs) \<subseteq> {0..<int (length rs)}" by (auto simp add: obsoleteRows_set)
  then have "card (set (obsoleteRows ids rs)) \<le> card {0..<int (length rs)}"
    by (intro card_mono) simp_all
  then show ?thesis using obsoleteRows_distinct [of ids rs] by (simp add: distinct_card)
qed

lemma trimCount_within_int32:
  assumes "0 < queryLimit m" and "queryLimit m < 2 ^ 30"
    and "int (length (rows m)) \<le> queryLimit m"
    and "int (length (resolvedEvents m)) \<le> queryLimit m"
  shows "int (length (rows m)) + int (length (resolvedEvents m)) < 2 ^ 31
       \<and> 0 \<le> int (length (rows m)) + int (length (resolvedEvents m))
              - int (length (obsoleteRows (resolvedContactIds m) (rows m)))
       \<and> - (2 ^ 31) \<le> int (length (rows m)) + int (length (resolvedEvents m))
              - int (length (obsoleteRows (resolvedContactIds m) (rows m))) - queryLimit m
       \<and> int (length (rows m)) + int (length (resolvedEvents m))
              - int (length (obsoleteRows (resolvedContactIds m) (rows m))) - queryLimit m < 2 ^ 31"
  using assms obsoleteRows_length [of "resolvedContactIds m" "rows m"] by simp

subsection \<open>What the merge leaves in the rows\<close>

lemma mergeResolved_rows:
  "\<exists>s. distinct s \<and> set s \<subseteq> {0..<int (length (rows m))}
       \<and> set (obsoleteRows (resolvedContactIds m) (rows m)) \<subseteq> set s
       \<and> (queryLimit m \<noteq> 0 \<longrightarrow>
            int (length s) = int (length (obsoleteRows (resolvedContactIds m) (rows m)))
               + max (int (length (rows m)) + int (length (resolvedEvents m))
                      - int (length (obsoleteRows (resolvedContactIds m) (rows m)))
                      - queryLimit m) 0
            \<or> length s = length (rows m))
       \<and> rows (fst (mergeResolved m))
           = resolvedEvents m @ nths (rows m) {i. int i \<notin> set s}"
proof -
  let ?n = "int (length (rows m))"
  let ?obs = "obsoleteRows (resolvedContactIds m) (rows m)"
  let ?t = "?n + int (length (resolvedEvents m)) - int (length ?obs) - queryLimit m"
  let ?s = "if queryLimit m \<noteq> 0 then trimLoop ?t (?n - 1) ?obs else ?obs"
  have d0: "distinct ?obs" by (rule obsoleteRows_distinct)
  have r0: "set ?obs \<subseteq> {0..<?n}" by (auto simp add: obsoleteRows_set)
  have "?n - 1 < ?n" by simp
  moreover have "\<forall>j. ?n - 1 < j \<and> j < ?n \<longrightarrow> j \<in> set ?obs" by auto
  ultimately have tl: "distinct (trimLoop ?t (?n - 1) ?obs)"
    "set ?obs \<subseteq> set (trimLoop ?t (?n - 1) ?obs)"
    "set (trimLoop ?t (?n - 1) ?obs) \<subseteq> {0..<?n}"
    "int (length (trimLoop ?t (?n - 1) ?obs)) = int (length ?obs) + max ?t 0
     \<or> int (length (trimLoop ?t (?n - 1) ?obs)) = max ?n 0"
    using trimLoop_spec [OF d0 r0, of "?n - 1" ?t] by simp_all
  have d: "distinct ?s" using d0 tl(1) by simp
  have r: "set ?s \<subseteq> {0..<?n}" using r0 tl(3) by simp
  have sup: "set ?obs \<subseteq> set ?s" using tl(2) by simp
  have len: "queryLimit m \<noteq> 0 \<longrightarrow>
            int (length ?s) = int (length ?obs) + max ?t 0 \<or> length ?s = length (rows m)"
    using tl(4) by auto
  have srt: "sorted_wrt (<) (sort ?s)" using d by (simp add: strict_sorted_iff)
  have rng: "\<forall>x \<in> set (sort ?s). 0 \<le> x \<and> x < int (length (rows m))" using r by auto
  have rem: "fst (removeRowsLoop (sort ?s) (rows m) []) = nths (rows m) {i. int i \<notin> set ?s}"
    using removeRowsLoop_rows [OF srt rng, of "[]"] by simp
  have "rows (fst (mergeResolved m))
        = insertLoop 0 (resolvedEvents m) (fst (removeRowsLoop (sort ?s) (rows m) []))"
    by (simp add: mergeResolved_def Let_def split: prod.split)
  also have "\<dots> = resolvedEvents m @ nths (rows m) {i. int i \<notin> set ?s}"
    unfolding rem by (simp add: insertLoop_spec)
  finally have rws: "rows (fst (mergeResolved m))
        = resolvedEvents m @ nths (rows m) {i. int i \<notin> set ?s}" .
  from d r sup len rws show ?thesis by blast
qed

lemma mergeResolved_frame:
  "resolvedEvents (fst (mergeResolved m)) = [] \<and> resolvedContactIds (fst (mergeResolved m)) = []
   \<and> queryLimit (fst (mergeResolved m)) = queryLimit m
   \<and> unresolvedEvents (fst (mergeResolved m)) = unresolvedEvents m"
  by (simp add: mergeResolved_def Let_def split: prod.split)

lemma mergeResolved_limit:
  assumes "0 < queryLimit m" and "int (length (rows m)) \<le> queryLimit m"
    and "int (length (resolvedEvents m)) \<le> queryLimit m"
  shows "int (length (rows (fst (mergeResolved m)))) \<le> queryLimit m"
proof -
  let ?n = "length (rows m)"
  let ?obs = "obsoleteRows (resolvedContactIds m) (rows m)"
  from mergeResolved_rows [of m] obtain s where s: "distinct s" "set s \<subseteq> {0..<int ?n}"
    "queryLimit m \<noteq> 0 \<longrightarrow>
       int (length s) = int (length ?obs)
          + max (int ?n + int (length (resolvedEvents m)) - int (length ?obs) - queryLimit m) 0
       \<or> length s = ?n"
    "rows (fst (mergeResolved m)) = resolvedEvents m @ nths (rows m) {i. int i \<notin> set s}"
    by blast
  have kept: "length (nths (rows m) {i. int i \<notin> set s}) = ?n - length s"
    using kept_rows_length [OF s(1,2)] by (simp add: length_nths)
  have le: "length s \<le> ?n"
  proof -
    have "card (set s) \<le> card {0..<int ?n}" using s(2) by (intro card_mono) simp_all
    then show ?thesis using s(1) by (simp add: distinct_card)
  qed
  have "int (length (rows (fst (mergeResolved m))))
        = int (length (resolvedEvents m)) + int ?n - int (length s)"
    unfolding s(4) using kept le by simp
  moreover have "int (length s) = int (length ?obs)
          + max (int ?n + int (length (resolvedEvents m)) - int (length ?obs) - queryLimit m) 0
       \<or> length s = ?n"
    using s(3) assms(1) by simp
  ultimately show ?thesis using assms(3) by auto
qed

lemma mergeResolved_contacts:
  assumes "contactsInv m"
  shows "contactsInv (fst (mergeResolved m))"
proof -
  let ?n = "length (rows m)"
  from mergeResolved_rows [of m] obtain s where s:
    "set (obsoleteRows (resolvedContactIds m) (rows m)) \<subseteq> set s"
    "rows (fst (mergeResolved m)) = resolvedEvents m @ nths (rows m) {i. int i \<notin> set s}"
    by blast
  let ?kept = "nths (rows m) {i. int i \<notin> set s}"
  have inv: "distinct (map eventContact (rows m))" "distinct (map eventContact (resolvedEvents m))"
    "set (resolvedContactIds m) = eventContact ` set (resolvedEvents m)"
    using assms by (simp_all add: contactsInv_def)
  have k1: "distinct (map eventContact ?kept)"
    using inv(1) by (simp add: nths_map [symmetric] distinct_nthsI)
  have k2: "eventContact e \<notin> set (resolvedContactIds m)" if "e \<in> set ?kept" for e
  proof
    assume c: "eventContact e \<in> set (resolvedContactIds m)"
    from that obtain i where i: "i < ?n" "int i \<notin> set s" "e = rows m ! i"
      by (auto simp add: set_nths)
    have "int i \<in> set (obsoleteRows (resolvedContactIds m) (rows m))"
      using i(1,3) c by (auto simp add: obsoleteRows_set)
    then show False using s(1) i(2) by blast
  qed
  have "eventContact ` set (resolvedEvents m) \<inter> eventContact ` set ?kept = {}"
  proof (rule ccontr)
    assume "eventContact ` set (resolvedEvents m) \<inter> eventContact ` set ?kept \<noteq> {}"
    then obtain c where c: "c \<in> eventContact ` set (resolvedEvents m)"
      "c \<in> eventContact ` set ?kept" by blast
    from c(2) obtain e where e: "e \<in> set ?kept" "c = eventContact e" by blast
    from k2 [OF e(1)] c(1) e(2) inv(3) show False by simp
  qed
  then have "distinct (map eventContact (resolvedEvents m @ ?kept))"
    using inv(2) k1 by simp
  then show ?thesis
    unfolding contactsInv_def s(2) using mergeResolved_frame [of m] by simp
qed

subsection \<open>What the ingestion loop accepts\<close>

lemma ingestEvents_Cons_cases:
  obtains
    (skip) "ingestEvents env dir resolved (e # es) m = ingestEvents env dir resolved es m"
  | (queue) "ingestEvents env dir resolved (e # es) m
             = ingestEvents env dir resolved es (m\<lparr>unresolvedEvents := unresolvedEvents m @ [e]\<rparr>)"
  | (accept) "contactId (recipient e) \<notin> set (resolvedContactIds m)"
      "int (length (resolvedEvents m)) + 1 \<noteq> queryLimit m"
      "ingestEvents env dir resolved (e # es) m
       = ingestEvents env dir resolved es
           (m\<lparr>resolvedContactIds := qset_insert (contactId (recipient e)) (resolvedContactIds m),
              resolvedEvents := resolvedEvents m @ [e]\<rparr>)"
  | (stop) "contactId (recipient e) \<notin> set (resolvedContactIds m)"
      "int (length (resolvedEvents m)) + 1 = queryLimit m"
      "ingestEvents env dir resolved (e # es) m
       = m\<lparr>resolvedContactIds := qset_insert (contactId (recipient e)) (resolvedContactIds m),
            resolvedEvents := resolvedEvents m @ [e]\<rparr>"
proof (cases resolved)
  case False
  show ?thesis
  proof (cases "eventCategoryMask m = AnyCategory env \<or> (category e AND eventCategoryMask m) \<noteq> 0")
    case True
    with False have "ingestEvents env dir resolved (e # es) m
             = ingestEvents env dir resolved es (m\<lparr>unresolvedEvents := unresolvedEvents m @ [e]\<rparr>)"
      by simp
    then show ?thesis by (rule queue)
  next
    case nomatch: False
    then have "ingestEvents env dir resolved (e # es) m = ingestEvents env dir resolved es m"
      by simp
    then show ?thesis by (rule skip)
  qed
next
  case True
  let ?ok = "(eventCategoryMask m = AnyCategory env \<or> (category e AND eventCategoryMask m) \<noteq> 0)
            \<and> contactId (recipient e) \<noteq> 0
            \<and> \<not> qset_contains (resolvedContactIds m) (contactId (recipient e))
            \<and> \<not> (excludeFavorites m \<and> contactIsFavorite dir (contactId (recipient e)))
            \<and> (addressFlags m = 0 \<or> matchesAddressFlags dir (recipient e) (addressFlags m))"
  show ?thesis
  proof (cases ?ok)
    case False
    then have "ingestEvents env dir resolved (e # es) m = ingestEvents env dir resolved es m"
      using True by (auto simp add: Let_def)
    then show ?thesis by (rule skip)
  next
    case ok: True
    then have nin: "contactId (recipient e) \<notin> set (resolvedContactIds m)"
      by (simp add: qset_contains_def)
    show ?thesis
    proof (cases "int (length (resolvedEvents m)) + 1 = queryLimit m")
      case full: True
      then have "ingestEvents env dir resolved (e # es) m
         = m\<lparr>resolvedContactIds := qset_insert (contactId (recipient e)) (resolvedContactIds m),
              resolvedEvents := resolvedEvents m @ [e]\<rparr>"
        using True ok by (auto simp add: Let_def)
      with nin full show ?thesis by (rule stop)
    next
      case more: False
      then have "ingestEvents env dir resolved (e # es) m
         = ingestEvents env dir resolved es
           (m\<lparr>resolvedContactIds := qset_insert (contactId (recipient e)) (resolvedContactIds m),
              resolvedEvents := resolvedEvents m @ [e]\<rparr>)"
        using True ok by (auto simp add: Let_def)
      with nin more show ?thesis by (rule accept)
    qed
  qed
qed

lemma ingestEvents_accepted:
  assumes "distinct (map eventContact (resolvedEvents m))"
    and "set (resolvedContactIds m) = eventContact ` set (resolvedEvents m)"
  shows "distinct (map eventContact (resolvedEvents (ingestEvents env dir resolved events m)))
       \<and> set (resolvedContactIds (ingestEvents env dir resolved events m))
           = eventContact ` set (resolvedEvents (ingestEvents env dir resolved events m))"
  using assms
proof (induction events arbitrary: m)
  case Nil
  then show ?case by simp
next
  case (Cons e es)
  let ?m' = "m\<lparr>resolvedContactIds := qset_insert (contactId (recipient e)) (resolvedContactIds m),
               resolvedEvents := resolvedEvents m @ [e]\<rparr>"
  have acc: "distinct (map eventContact (resolvedEvents ?m'))
             \<and> set (resolvedContactIds ?m') = eventContact ` set (resolvedEvents ?m')"
    if "contactId (recipient e) \<notin> set (resolvedContactIds m)"
  proof -
    have ec: "eventContact e = contactId (recipient e)" by (simp add: eventContact_def)
    have "eventContact e \<notin> eventContact ` set (resolvedEvents m)"
      using that Cons.prems(2) ec by simp
    then show ?thesis using Cons.prems ec by simp
  qed
  show ?case
  proof (cases rule: ingestEvents_Cons_cases [of env dir resolved e es m])
    case skip
    then show ?thesis using Cons.IH [OF Cons.prems] by simp
  next
    case queue
    have "distinct (map eventContact (resolvedEvents (m\<lparr>unresolvedEvents := unresolvedEvents m @ [e]\<rparr>)))"
      "set (resolvedContactIds (m\<lparr>unresolvedEvents := unresolvedEvents m @ [e]\<rparr>))
       = eventContact ` set (resolvedEvents (m\<lparr>unresolvedEvents := unresolvedEvents m @ [e]\<rparr>))"
      using Cons.prems by simp_all
    from Cons.IH [OF this] show ?thesis unfolding queue .
  next
    case accept
    from acc [OF accept(1)] have "distinct (map eventContact (resolvedEvents ?m'))"
      "set (resolvedContactIds ?m') = eventContact ` set (resolvedEvents ?m')" by blast+
    from Cons.IH [OF this] show ?thesis unfolding accept(3) .
  next
    case stop
    from acc [OF stop(1)] show ?thesis unfolding stop(3) .
  qed
qed

lemma ingestEvents_count:
  assumes "int (length (resolvedEvents m)) < queryLimit m"
  shows "int (length (resolvedEvents (ingestEvents env dir resolved events m))) \<le> queryLimit m"
  using assms
proof (induction events arbitrary: m)
  case Nil
  then show ?case by simp
next
  case (Cons e es)
  let ?m' = "m\<lparr>resolvedContactIds := qset_insert (contactId (recipient e)) (resolvedContactIds m),
               resolvedEvents := resolvedEvents m @ [e]\<rparr>"
  show ?case
  proof (cases rule: ingestEvents_Cons_cases [of env dir resolved e es m])
    case skip
    then show ?thesis using Cons.IH [OF Cons.prems] by simp
  next
    case queue
    have "int (length (resolvedEvents (m\<lparr>unresolvedEvents := unresolvedEvents m @ [e]\<rparr>)))
          < queryLimit (m\<lparr>unresolvedEvents := unresolvedEvents m @ [e]\<rparr>)"
      using Cons.prems by simp
    from Cons.IH [OF this] show ?thesis unfolding queue by simp
  next
    case accept
    have "int (length (resolvedEvents ?m')) < queryLimit ?m'"
      using accept(2) Cons.prems by simp
    from Cons.IH [OF this] show ?thesis unfolding accept(3) by simp
  next
    case stop
    show ?thesis unfolding stop(3) using stop(2) by simp
  qed
qed

subsection \<open>The address flags follow the required property\<close>

lemma setRequiredProperty_flags:
  "addressFlags (fst (setRequiredProperty env rp m)) = requiredAddressFlags env rp"
  by (simp add: setRequiredProperty_def Let_def)

lemma setRequiredProperty_property:
  "requiredProperty (fst (setRequiredProperty env rp m)) = rp"
  by (simp add: setRequiredProperty_def Let_def)

lemma prependEvents_config:
  "requiredProperty (fst (prependEvents env dir events resolved m)) = requiredProperty m
   \<and> addressFlags (fst (prependEvents env dir events resolved m)) = addressFlags m
   \<and> excludeFavorites (fst (prependEvents env dir events resolved m)) = excludeFavorites m
   \<and> queryLimit (fst (prependEvents env dir events resolved m)) = queryLimit m
   \<and> eventCategoryMask (fst (prependEvents env dir events resolved m)) = eventCategoryMask m"
  by (simp add: prependEvents_def mergeResolved_def Let_def ingestEvents_frame split: prod.split)

lemma runCall_flags:
  assumes "addressFlags m = requiredAddressFlags env (requiredProperty m)"
  shows "addressFlags (runCall env c m) = requiredAddressFlags env (requiredProperty (runCall env c m))"
proof (cases c)
  case (PrependEvents dir events resolved)
  then show ?thesis using assms prependEvents_config [of env dir events resolved m] by simp
next
  case (SetRequiredProperty rp)
  then show ?thesis
    by (simp add: setRequiredProperty_flags setRequiredProperty_property)
next
  case (SetExcludeFavorites exclude)
  then show ?thesis using assms by (simp add: setExcludeFavorites_def)
qed

lemma runCalls_flags:
  "addressFlags m = requiredAddressFlags env (requiredProperty m) \<Longrightarrow>
   addressFlags (runCalls env cs m) = requiredAddressFlags env (requiredProperty (runCalls env cs m))"
  by (induction cs arbitrary: m) (simp_all add: runCall_flags)

lemma setRequiredProperty_same:
  "addressFlags m = requiredAddressFlags env (requiredProperty m) \<Longrightarrow>
   setRequiredProperty env (requiredProperty m) m = (m, [])"
  by (simp add: setRequiredProperty_def Let_def)

text \<open>
  C10. Take a model as the constructor makes it, where \<open>NoPropertyRequired\<close> asks for no
  address flag, and run any calls on it. Then \<open>setRequiredProperty\<close> with the stored value
  leaves the whole model as it is (the address flags it computes are the stored ones) and
  emits nothing, and so does \<open>setExcludeFavorites\<close> with the stored value; and for any
  argument each setter emits its changed signal exactly when the argument differs from the
  stored value.
\<close>

theorem setters_same_value_no_change:
  assumes "requiredAddressFlags env (NoPropertyRequired env) = 0"
    and "m = runCalls env cs (newModel env categoryMask limit)"
  shows "setRequiredProperty env (requiredProperty m) m = (m, [])
       \<and> setExcludeFavorites (excludeFavorites m) m = (m, [])
       \<and> snd (setRequiredProperty env rp m)
           = (if requiredProperty m = rp then [] else [RequiredPropertyChanged])
       \<and> snd (setExcludeFavorites exclude m)
           = (if excludeFavorites m = exclude then [] else [ExcludeFavoritesChanged])"
proof -
  have "addressFlags (newModel env categoryMask limit)
        = requiredAddressFlags env (requiredProperty (newModel env categoryMask limit))"
    using assms(1) by (simp add: newModel_def)
  then have "addressFlags m = requiredAddressFlags env (requiredProperty m)"
    unfolding assms(2) by (rule runCalls_flags)
  then have "setRequiredProperty env (requiredProperty m) m = (m, [])"
    by (rule setRequiredProperty_same)
  moreover have "setExcludeFavorites (excludeFavorites m) m = (m, [])"
    by (simp add: setExcludeFavorites_def)
  moreover have "snd (setRequiredProperty env rp m)
           = (if requiredProperty m = rp then [] else [RequiredPropertyChanged])"
    by (simp add: setRequiredProperty_def Let_def)
  moreover have "snd (setExcludeFavorites exclude m)
           = (if excludeFavorites m = exclude then [] else [ExcludeFavoritesChanged])"
    by (simp add: setExcludeFavorites_def)
  ultimately show ?thesis by simp
qed

lemma configuredModel_fields:
  "requiredProperty configuredModel = 1" "excludeFavorites configuredModel = True"
  "addressFlags configuredModel = 1"
  by (simp_all add: configuredModel_def setRequiredProperty_def setExcludeFavorites_def
      requiredAddressFlags_def newModel_def sampleEnv_def Let_def)

theorem setters_same_value_no_change_witness:
  "requiredAddressFlags sampleEnv (NoPropertyRequired sampleEnv) = 0
   \<and> setRequiredProperty sampleEnv 1 configuredModel = (configuredModel, [])
   \<and> setExcludeFavorites True configuredModel = (configuredModel, [])
   \<and> snd (setRequiredProperty sampleEnv 3 configuredModel) = [RequiredPropertyChanged]
   \<and> snd (setExcludeFavorites False configuredModel) = [ExcludeFavoritesChanged]"
proof -
  have h: "requiredAddressFlags sampleEnv (NoPropertyRequired sampleEnv) = 0"
    by (simp add: requiredAddressFlags_def sampleEnv_def)
  from setters_same_value_no_change [OF h configuredModel_def, of 3 False]
  show ?thesis using h by (simp add: configuredModel_fields)
qed

subsection \<open>The invariants of the model\<close>

lemma prependEvents_cases:
  fixes env dir events resolved m
  defines "m1 \<equiv> ingestEvents env dir resolved events m"
  obtains
    (handOver) "fst (prependEvents env dir events resolved m)
                = m1\<lparr>unresolvedEvents := tl (unresolvedEvents m1)\<rparr>"
      "queryLimit m = 0 \<or> int (length (resolvedEvents m1)) < queryLimit m"
  | (merge) "fst (prependEvents env dir events resolved m)
             = fst (mergeResolved (m1\<lparr>unresolvedEvents := []\<rparr>))"
  | (nothing) "fst (prependEvents env dir events resolved m) = m1\<lparr>unresolvedEvents := []\<rparr>"
      "resolvedEvents m1 = []"
proof -
  have q: "queryLimit m1 = queryLimit m" unfolding m1_def by (simp add: ingestEvents_frame)
  have same: "m1 = m1\<lparr>unresolvedEvents := []\<rparr>" if "unresolvedEvents m1 = []"
    using that by simp
  show ?thesis
  proof (cases "unresolvedEvents m1 \<noteq> []
               \<and> (queryLimit m1 = 0 \<or> int (length (resolvedEvents m1)) < queryLimit m1)")
    case True
    then have "fst (prependEvents env dir events resolved m)
                = m1\<lparr>unresolvedEvents := tl (unresolvedEvents m1)\<rparr>"
      unfolding m1_def by (simp add: prependEvents_def Let_def)
    moreover have "queryLimit m = 0 \<or> int (length (resolvedEvents m1)) < queryLimit m"
      using True q by simp
    ultimately show ?thesis by (rule handOver)
  next
    case False
    let ?m2 = "if unresolvedEvents m1 \<noteq> [] then m1\<lparr>unresolvedEvents := []\<rparr> else m1"
    have m2: "?m2 = m1\<lparr>unresolvedEvents := []\<rparr>" using same by auto
    have e: "fst (prependEvents env dir events resolved m)
             = (if resolvedEvents ?m2 \<noteq> [] then fst (mergeResolved ?m2) else ?m2)"
      using False unfolding m1_def
      by (simp only: prependEvents_def Let_def if_False split: prod.split) auto
    show ?thesis
    proof (cases "resolvedEvents m1 \<noteq> []")
      case True
      then have "fst (prependEvents env dir events resolved m)
             = fst (mergeResolved (m1\<lparr>unresolvedEvents := []\<rparr>))"
        unfolding e m2 by simp
      then show ?thesis by (rule merge)
    next
      case empty: False
      then have "fst (prependEvents env dir events resolved m) = m1\<lparr>unresolvedEvents := []\<rparr>"
        unfolding e m2 by simp
      moreover have "resolvedEvents m1 = []" using empty by simp
      ultimately show ?thesis by (rule nothing)
    qed
  qed
qed

lemma prependEvents_contacts:
  assumes "contactsInv m"
  shows "contactsInv (fst (prependEvents env dir events resolved m))"
proof -
  let ?m1 = "ingestEvents env dir resolved events m"
  have acc: "distinct (map eventContact (resolvedEvents ?m1))"
    "set (resolvedContactIds ?m1) = eventContact ` set (resolvedEvents ?m1)"
    using assms ingestEvents_accepted [of m env dir resolved events]
    by (simp_all add: contactsInv_def)
  have rws: "rows ?m1 = rows m" by (simp add: ingestEvents_frame)
  have c: "contactsInv (?m1\<lparr>unresolvedEvents := u\<rparr>)" for u
    using assms acc rws by (simp add: contactsInv_def)
  show ?thesis
  proof (cases rule: prependEvents_cases [of env dir events resolved m])
    case handOver
    then show ?thesis using c by simp
  next
    case merge
    then show ?thesis using mergeResolved_contacts [OF c] by simp
  next
    case nothing
    then show ?thesis using c by simp
  qed
qed

lemma prependEvents_limit:
  assumes "0 < queryLimit m" and "limitInv m"
  shows "limitInv (fst (prependEvents env dir events resolved m))"
proof -
  let ?m1 = "ingestEvents env dir resolved events m"
  have q: "queryLimit ?m1 = queryLimit m" and rws: "rows ?m1 = rows m"
    by (simp_all add: ingestEvents_frame)
  have cnt: "int (length (resolvedEvents ?m1)) \<le> queryLimit m"
    using assms(2) by (intro ingestEvents_count) (simp add: limitInv_def)
  have rl: "int (length (rows ?m1)) \<le> queryLimit m"
    using assms(2) rws by (simp add: limitInv_def)
  show ?thesis
  proof (cases rule: prependEvents_cases [of env dir events resolved m])
    case handOver
    then show ?thesis using q rl assms(1) by (simp add: limitInv_def)
  next
    case merge
    let ?m2 = "?m1\<lparr>unresolvedEvents := []\<rparr>"
    have "int (length (rows (fst (mergeResolved ?m2)))) \<le> queryLimit ?m2"
      using assms(1) cnt rl q by (intro mergeResolved_limit) simp_all
    then show ?thesis
      unfolding merge using mergeResolved_frame [of ?m2] q assms(1) by (simp add: limitInv_def)
  next
    case nothing
    then show ?thesis using q rl assms(1) by (simp add: limitInv_def)
  qed
qed

lemma runCall_queryLimit: "queryLimit (runCall env c m) = queryLimit m"
  by (cases c) (simp_all add: prependEvents_config setRequiredProperty_def
      setExcludeFavorites_def Let_def)

lemma runCall_contacts:
  assumes "contactsInv m"
  shows "contactsInv (runCall env c m)"
proof (cases c)
  case (PrependEvents dir events resolved)
  then show ?thesis using prependEvents_contacts [OF assms] by simp
next
  case (SetRequiredProperty rp)
  then show ?thesis using assms by (simp add: setRequiredProperty_def contactsInv_def Let_def)
next
  case (SetExcludeFavorites exclude)
  then show ?thesis using assms by (simp add: setExcludeFavorites_def contactsInv_def)
qed

lemma runCall_limit:
  assumes "0 < queryLimit m" and "limitInv m"
  shows "limitInv (runCall env c m)"
proof (cases c)
  case (PrependEvents dir events resolved)
  then show ?thesis using prependEvents_limit [OF assms] by simp
next
  case (SetRequiredProperty rp)
  then show ?thesis using assms by (simp add: setRequiredProperty_def limitInv_def Let_def)
next
  case (SetExcludeFavorites exclude)
  then show ?thesis using assms by (simp add: setExcludeFavorites_def limitInv_def)
qed

lemma runCalls_queryLimit: "queryLimit (runCalls env cs m) = queryLimit m"
  by (induction cs arbitrary: m) (simp_all add: runCall_queryLimit)

lemma runCalls_contacts: "contactsInv m \<Longrightarrow> contactsInv (runCalls env cs m)"
  by (induction cs arbitrary: m) (simp_all add: runCall_contacts)

lemma runCalls_limit:
  "0 < queryLimit m \<Longrightarrow> limitInv m \<Longrightarrow> limitInv (runCalls env cs m)"
  by (induction cs arbitrary: m) (simp_all add: runCall_limit runCall_queryLimit)

text \<open>
  C1. With a limit \<open>N > 0\<close>, after every run of calls on a new model (batches of resolved or
  unresolved events, with any directory, and setter calls in between) the model has at most
  \<open>N\<close> rows.
\<close>

theorem rows_within_limit:
  assumes "0 < N"
  shows "int (length (rows (runCalls env cs (newModel env categoryMask N)))) \<le> N"
proof -
  have "limitInv (newModel env categoryMask N)" using assms by (simp add: limitInv_def newModel_def)
  moreover have "0 < queryLimit (newModel env categoryMask N)" using assms by (simp add: newModel_def)
  ultimately have "limitInv (runCalls env cs (newModel env categoryMask N))"
    by (intro runCalls_limit)
  then show ?thesis by (simp add: limitInv_def runCalls_queryLimit newModel_def)
qed

text \<open>
  C2. After every run of calls on a new model, with any limit, no two rows have the same
  nonzero contact id.
\<close>

theorem rows_have_distinct_contacts:
  "distinct (filter (\<lambda>c. c \<noteq> 0)
     (map eventContact (rows (runCalls env cs (newModel env categoryMask limit)))))"
proof -
  have "contactsInv (newModel env categoryMask limit)" by (simp add: contactsInv_def newModel_def)
  then have "contactsInv (runCalls env cs (newModel env categoryMask limit))"
    by (rule runCalls_contacts)
  then show ?thesis by (simp add: contactsInv_def)
qed

subsection \<open>Two runs, evaluated\<close>

lemmas loop_equations =
  skipRemoved.simps trimLoop.simps consecutiveCountLoop.simps removeRange.simps
  removeRowsLoop.simps

lemmas sample_defs =
  newModel_def sampleEnv_def sampleEvent_def emptyDirectory_def prependEvents_def
  mergeResolved_def obsoleteRows_def qset_contains_def qset_insert_def eventContact_def
  contactIsFavorite_def removeAt_def insertChildAt_def Let_def

lemma twoBatches_rows:
  "rows (runCalls sampleEnv twoBatches (newModel sampleEnv (- 1) 2))
   = [sampleEvent 4 9 20, sampleEvent 1 5 10]"
  by (simp add: twoBatches_def sample_defs loop_equations)

lemma supersedingBatches_rows:
  "rows (runCalls sampleEnv supersedingBatches (newModel sampleEnv (- 1) 2))
   = [sampleEvent 5 7 20, sampleEvent 1 5 10]"
  by (simp add: supersedingBatches_def sample_defs loop_equations)

theorem rows_within_limit_witness:
  "(0::int) < 2
   \<and> int (length (rows (runCalls sampleEnv twoBatches (newModel sampleEnv (- 1) 2)))) \<le> 2
   \<and> rows (runCalls sampleEnv twoBatches (newModel sampleEnv (- 1) 2))
       = [sampleEvent 4 9 20, sampleEvent 1 5 10]"
proof -
  have h: "(0::int) < 2" by simp
  from rows_within_limit [OF h, of sampleEnv twoBatches "- 1"]
  show ?thesis using twoBatches_rows by simp
qed

theorem rows_have_distinct_contacts_witness:
  "distinct (filter (\<lambda>c. c \<noteq> 0)
     (map eventContact (rows (runCalls sampleEnv supersedingBatches (newModel sampleEnv (- 1) 2)))))
   \<and> map eventContact (rows (runCalls sampleEnv supersedingBatches (newModel sampleEnv (- 1) 2)))
       = [7, 5]"
proof -
  from rows_have_distinct_contacts [of sampleEnv supersedingBatches "- 1" 2]
  show ?thesis by (simp add: supersedingBatches_rows eventContact_def sampleEvent_def)
qed

subsection \<open>One pass\<close>

text \<open>
  C4. With rows \<open>[E1(contact 5), E2(contact 7)]\<close> and limit 2, ingesting the resolved batch
  \<open>[E3(contact 7)]\<close> leaves the rows \<open>[E3, E1]\<close>; the diff is one removal \<open>(1, 1)\<close> and one
  insertion \<open>(0, 0)\<close>. Row 1 is removed because E3 claims its contact: the batch claims the
  contact ids \<open>[7]\<close>, the rows marked as superseded are \<open>[1]\<close>, and the loop that trims the
  last rows for the limit, run with the count \<open>2 + 1 - 1 - 2\<close> of line 256, marks no further
  row. With E2 in the first row instead of the last, it is again E2 that is removed (row 0)
  and the rows are \<open>[E3, E1]\<close>.
\<close>

theorem scenario_supersede:
  "prependEvents env dir [withContact 7 e3] True
     (scenarioModel env [withContact 5 e1, withContact 7 e2] m)
   = (scenarioModel env [withContact 7 e3, withContact 5 e1] m,
      [RemoveRows 1 1, InsertRows 0 0, ModelUpdated, ResolvingChanged])
   \<and> resolvedContactIds
        (ingestEvents env dir True [withContact 7 e3]
           (scenarioModel env [withContact 5 e1, withContact 7 e2] m)) = [7]
   \<and> obsoleteRows [7] [withContact 5 e1, withContact 7 e2] = [1]
   \<and> trimLoop (2 + 1 - 1 - 2) (2 - 1) [1] = [1]
   \<and> prependEvents env dir [withContact 7 e3] True
        (scenarioModel env [withContact 7 e2, withContact 5 e1] m)
      = (scenarioModel env [withContact 7 e3, withContact 5 e1] m,
         [RemoveRows 0 0, InsertRows 0 0, ModelUpdated, ResolvingChanged])"
  by (simp add: prependEvents_def mergeResolved_def scenarioModel_def withContact_def
      obsoleteRows_def qset_contains_def qset_insert_def eventContact_def removeAt_def
      insertChildAt_def Let_def skipRemoved.simps trimLoop.simps consecutiveCountLoop.simps
      removeRange.simps removeRowsLoop.simps)

text \<open>
  C9. When the loop over the batch ends with events still queued for resolution and fewer
  accepted events than the limit (or no limit), the pass takes the first queued event, hands
  it to the resolver and returns: the rows are those of before, the only outgoing call is
  \<open>resolveAddedEvents\<close> with that one event (no rows removed or inserted, no further signal),
  and the accepted events and their contact ids stay in the model for the next pass.
\<close>

theorem prependEvents_hands_one_to_resolver:
  assumes "unresolvedEvents (ingestEvents env dir resolved events m) \<noteq> []"
    and "queryLimit m = 0
         \<or> int (length (resolvedEvents (ingestEvents env dir resolved events m))) < queryLimit m"
    and "prependEvents env dir events resolved m = (m', sigs)"
  shows "rows m' = rows m
       \<and> sigs = [ResolveAddedEvents [hd (unresolvedEvents (ingestEvents env dir resolved events m))]]
       \<and> unresolvedEvents (ingestEvents env dir resolved events m)
           = hd (unresolvedEvents (ingestEvents env dir resolved events m)) # unresolvedEvents m'
       \<and> resolvedEvents m' = resolvedEvents (ingestEvents env dir resolved events m)
       \<and> resolvedContactIds m' = resolvedContactIds (ingestEvents env dir resolved events m)
       \<and> m' = (ingestEvents env dir resolved events m)\<lparr>unresolvedEvents := unresolvedEvents m'\<rparr>"
  using assms ingestEvents_frame [of env dir resolved events m]
  by (auto simp add: prependEvents_def Let_def)

lemma ingest_sample:
  "ingestEvents sampleEnv emptyDirectory True [sampleEvent 1 5 10] queuedModel
   = queuedModel\<lparr>resolvedContactIds := [5], resolvedEvents := [sampleEvent 1 5 10]\<rparr>"
  by (simp add: queuedModel_def newModel_def sampleEnv_def sampleEvent_def Let_def
      qset_contains_def qset_insert_def emptyDirectory_def contactIsFavorite_def)

theorem prependEvents_hands_one_to_resolver_witness:
  "unresolvedEvents (ingestEvents sampleEnv emptyDirectory True [sampleEvent 1 5 10] queuedModel) \<noteq> []
   \<and> int (length (resolvedEvents
            (ingestEvents sampleEnv emptyDirectory True [sampleEvent 1 5 10] queuedModel)))
       < queryLimit queuedModel
   \<and> rows (fst (prependEvents sampleEnv emptyDirectory [sampleEvent 1 5 10] True queuedModel)) = []
   \<and> snd (prependEvents sampleEnv emptyDirectory [sampleEvent 1 5 10] True queuedModel)
       = [ResolveAddedEvents [sampleEvent 2 0 9]]
   \<and> unresolvedEvents (fst (prependEvents sampleEnv emptyDirectory [sampleEvent 1 5 10] True queuedModel))
       = []
   \<and> resolvedEvents (fst (prependEvents sampleEnv emptyDirectory [sampleEvent 1 5 10] True queuedModel))
       = [sampleEvent 1 5 10]
   \<and> resolvedContactIds (fst (prependEvents sampleEnv emptyDirectory [sampleEvent 1 5 10] True queuedModel))
       = [5]"
proof -
  let ?m1 = "ingestEvents sampleEnv emptyDirectory True [sampleEvent 1 5 10] queuedModel"
  let ?p = "prependEvents sampleEnv emptyDirectory [sampleEvent 1 5 10] True queuedModel"
  have h1: "unresolvedEvents ?m1 \<noteq> []"
    unfolding ingest_sample by (simp add: queuedModel_def)
  have h2: "int (length (resolvedEvents ?m1)) < queryLimit queuedModel"
    unfolding ingest_sample by (simp add: queuedModel_def newModel_def)
  have h3: "?p = (fst ?p, snd ?p)" by simp
  have m1: "unresolvedEvents ?m1 = [sampleEvent 2 0 9]" "resolvedEvents ?m1 = [sampleEvent 1 5 10]"
    "resolvedContactIds ?m1 = [5]"
    unfolding ingest_sample by (simp_all add: queuedModel_def)
  have r: "rows queuedModel = []" by (simp add: queuedModel_def newModel_def)
  from prependEvents_hands_one_to_resolver [OF h1 disjI2 [OF h2] h3]
  show ?thesis using h1 h2 r unfolding m1 by (simp del: ingestEvents.simps)
qed

section \<open>Properties of the contact resolver\<close>

subsection \<open>What each operation leaves alone, and when finished is emitted\<close>

lemma resolve_frame:
  "resolve env dir r st = Inr st' \<Longrightarrow>
   resolving st' = resolving st \<and> finished st' = finished st \<and> queued st' = queued st
   \<and> forceResolving st' = forceResolving st"
  by (auto simp add: resolve_def setResolved_def Let_def split: if_splits option.splits)

lemma resolveEach_frame:
  "resolveEach env dir rs st = Inr st' \<Longrightarrow>
   resolving st' = resolving st \<and> finished st' = finished st \<and> queued st' = queued st
   \<and> forceResolving st' = forceResolving st"
proof (induction rs arbitrary: st)
  case Nil
  then show ?case by simp
next
  case (Cons r rs)
  then obtain st1 where 1: "resolve env dir r st = Inr st1" and 2: "resolveEach env dir rs st1 = Inr st'"
    by (auto split: sum.splits)
  from resolve_frame [OF 1] Cons.IH [OF 2] show ?case by simp
qed

lemma resolve_pending_grows:
  "resolve env dir r st = Inr st' \<Longrightarrow> pending st' = [] \<Longrightarrow> pending st = []"
  by (auto simp add: resolve_def setResolved_def Let_def split: if_splits option.splits)

lemma resolveEach_pending_grows:
  "resolveEach env dir rs st = Inr st' \<Longrightarrow> pending st' = [] \<Longrightarrow> pending st = []"
proof (induction rs arbitrary: st)
  case Nil
  then show ?case by simp
next
  case (Cons r rs)
  then obtain st1 where 1: "resolve env dir r st = Inr st1" and 2: "resolveEach env dir rs st1 = Inr st'"
    by (auto split: sum.splits)
  from Cons.IH [OF 2 Cons.prems(2)] resolve_pending_grows [OF 1] show ?case by simp
qed

lemma resolve_hit_pending:
  "resolve env dir r st = Inr st' \<Longrightarrow> directoryLookup env dir r \<noteq> None \<Longrightarrow> pending st' = pending st"
  by (auto simp add: resolve_def setResolved_def Let_def split: if_splits option.splits)

lemma resolveEach_hits_pending:
  "resolveEach env dir rs st = Inr st' \<Longrightarrow> \<forall>r \<in> set rs. directoryLookup env dir r \<noteq> None \<Longrightarrow>
   pending st' = pending st"
proof (induction rs arbitrary: st)
  case Nil
  then show ?case by simp
next
  case (Cons r rs)
  then obtain st1 where 1: "resolve env dir r st = Inr st1" and 2: "resolveEach env dir rs st1 = Inr st'"
    by (auto split: sum.splits)
  from Cons.prems(2) have h: "directoryLookup env dir r \<noteq> None" "\<forall>r \<in> set rs. directoryLookup env dir r \<noteq> None"
    by simp_all
  from Cons.IH [OF 2 h(2)] resolve_hit_pending [OF 1 h(1)] show ?case by simp
qed

lemma addList_no_signal:
  "addList env dir rs st = Inr st' \<Longrightarrow> finished st' = finished st \<and> resolving st'"
  by (auto simp add: addList_def checkIfFinishedAsynchronously_def Let_def
      split: sum.splits if_splits dest: resolveEach_frame)

lemma add_no_signal:
  "add env dir r st = Inr st' \<Longrightarrow> finished st' = finished st \<and> resolving st'"
  by (auto simp add: add_def checkIfFinishedAsynchronously_def Let_def
      split: sum.splits if_splits dest: resolve_frame)

lemma checkIfFinished_count:
  "finished (fst (checkIfFinished st))
   = finished st + (if resolving st \<and> \<not> resolving (fst (checkIfFinished st)) then 1 else 0)"
  by (simp add: checkIfFinished_def)

lemma setResolved_frame [simp]:
  "resolving (setResolved r i st) = resolving st" "finished (setResolved r i st) = finished st"
  "queued (setResolved r i st) = queued st" "pending (setResolved r i st) = pending st"
  "lookups (setResolved r i st) = lookups st" "forceResolving (setResolved r i st) = forceResolving st"
  by (simp_all add: setResolved_def)

lemma pendingErase_frame [simp]:
  "resolving (pendingErase k st) = resolving st" "finished (pendingErase k st) = finished st"
  "queued (pendingErase k st) = queued st" "shared (pendingErase k st) = shared st"
  "lookups (pendingErase k st) = lookups st" "forceResolving (pendingErase k st) = forceResolving st"
  by (simp_all add: pendingErase_def)

lemma resolveMatching_frame [simp]:
  "resolving (resolveMatching env dir pn its st) = resolving st"
  "finished (resolveMatching env dir pn its st) = finished st"
  "queued (resolveMatching env dir pn its st) = queued st"
  "lookups (resolveMatching env dir pn its st) = lookups st"
  "forceResolving (resolveMatching env dir pn its st) = forceResolving st"
  by (induction its arbitrary: st) simp_all

lemma addressResolved_count:
  "finished (addressResolved env dir first second item st)
   = finished st + (if resolving st \<and> \<not> resolving (addressResolved env dir first second item st)
                    then 1 else 0)"
  by (simp add: addressResolved_def checkIfFinished_def split: option.split)

lemma deliverQueued_count:
  "finished (deliverQueued st)
   = finished st + (if resolving st \<and> \<not> resolving (deliverQueued st) then 1 else 0)"
  by (simp add: deliverQueued_def checkIfFinished_def)

lemma runStep_count:
  assumes "runStep env s st = Inr st'"
  shows "finished st' = finished st + (if resolving st \<and> \<not> resolving st' then 1 else 0)"
proof (cases s)
  case (Add dir r)
  then show ?thesis using assms add_no_signal [of env dir r st st'] by simp
next
  case (AddList dir rs)
  then show ?thesis using assms addList_no_signal [of env dir rs st st'] by simp
next
  case (AddressResolved dir first second item)
  then show ?thesis using assms addressResolved_count [of env dir first second item st] by auto
next
  case DeliverQueued
  then show ?thesis using assms deliverQueued_count [of st] by auto
next
  case (SetForceResolving enabled)
  then show ?thesis using assms by auto
qed

subsection \<open>The invariant of the resolver\<close>

lemma checkIfFinished_inv:
  "resolving st \<or> pending st = [] \<Longrightarrow> resolverInv (fst (checkIfFinished st))"
  by (auto simp add: resolverInv_def checkIfFinished_def)

lemma pendingErase_nil: "pending st = [] \<Longrightarrow> pending (pendingErase k st) = []"
  by (simp add: pendingErase_def)

lemma resolveMatching_nil:
  "pending st = [] \<Longrightarrow> pending (resolveMatching env dir pn its st) = []"
  by (induction its arbitrary: st) (simp_all add: pendingErase_nil)

lemma addressResolved_inv:
  assumes "resolverInv st"
  shows "resolverInv (addressResolved env dir first second item st)"
proof -
  have a: "resolving st \<or> pending st = []" using assms by (simp add: resolverInv_def)
  have 1: "resolving (resolveMatching env dir pn (pending st) st)
           \<or> pending (resolveMatching env dir pn (pending st) st) = []" for pn
    using a by (auto simp add: resolveMatching_nil)
  have 2: "resolving (pendingErase k (setResolved r item st))
           \<or> pending (pendingErase k (setResolved r item st)) = []" for k r
    using a by (auto simp add: pendingErase_nil)
  show ?thesis
    using assms a checkIfFinished_inv [OF 1] checkIfFinished_inv [OF 2] checkIfFinished_inv [OF a]
    by (simp add: addressResolved_def split: option.split)
qed

lemma deliverQueued_inv: "resolverInv st \<Longrightarrow> resolverInv (deliverQueued st)"
  by (auto simp add: resolverInv_def deliverQueued_def checkIfFinished_def)

lemma checkIfFinishedAsynchronously_inv:
  "\<not> resolving st \<or> pending st \<noteq> [] \<or> 0 < queued st \<Longrightarrow>
   resolverInv (checkIfFinishedAsynchronously st)"
  by (auto simp add: resolverInv_def checkIfFinishedAsynchronously_def Let_def)

lemma addList_inv:
  assumes "resolverInv st" and "addList env dir rs st = Inr st'"
  shows "resolverInv st'"
proof -
  from assms(2) obtain st1 where 1: "resolveEach env dir rs st = Inr st1"
    and 2: "st' = checkIfFinishedAsynchronously st1"
    by (auto simp add: addList_def split: sum.splits)
  have "\<not> resolving st1 \<or> pending st1 \<noteq> [] \<or> 0 < queued st1"
    using assms(1) resolveEach_frame [OF 1] resolveEach_pending_grows [OF 1]
    by (auto simp add: resolverInv_def)
  then show ?thesis unfolding 2 by (rule checkIfFinishedAsynchronously_inv)
qed

lemma add_inv:
  assumes "resolverInv st" and "add env dir r st = Inr st'"
  shows "resolverInv st'"
proof -
  from assms(2) obtain st1 where 1: "resolve env dir r st = Inr st1"
    and 2: "st' = checkIfFinishedAsynchronously st1"
    by (auto simp add: add_def split: sum.splits)
  have "\<not> resolving st1 \<or> pending st1 \<noteq> [] \<or> 0 < queued st1"
    using assms(1) resolve_frame [OF 1] resolve_pending_grows [OF 1]
    by (auto simp add: resolverInv_def)
  then show ?thesis unfolding 2 by (rule checkIfFinishedAsynchronously_inv)
qed

lemma runStep_inv:
  assumes "resolverInv st" and "runStep env s st = Inr st'"
  shows "resolverInv st'"
proof (cases s)
  case (Add dir r)
  then show ?thesis using assms add_inv by simp
next
  case (AddList dir rs)
  then show ?thesis using assms addList_inv by simp
next
  case (AddressResolved dir first second item)
  then show ?thesis using assms addressResolved_inv by auto
next
  case DeliverQueued
  then show ?thesis using assms deliverQueued_inv by auto
next
  case (SetForceResolving enabled)
  then show ?thesis using assms by (auto simp add: resolverInv_def)
qed

lemma runSteps_inv:
  "resolverInv st \<Longrightarrow> runSteps env ss st = Inr st' \<Longrightarrow> resolverInv st'"
proof (induction ss arbitrary: st)
  case Nil
  then show ?case by simp
next
  case (Cons s ss)
  from Cons.prems(2) obtain st1 where 1: "runStep env s st = Inr st1"
    and 2: "runSteps env ss st1 = Inr st'"
    by (auto split: sum.splits)
  from Cons.IH [OF runStep_inv [OF Cons.prems(1) 1] 2] show ?case .
qed

lemma newResolver_inv: "resolverInv newResolver"
  by (simp add: resolverInv_def newResolver_def)

lemma addList_hits:
  assumes "\<not> resolving st" and "pending st = []"
    and "\<forall>r \<in> set rs. directoryLookup env dir r \<noteq> None"
    and "addList env dir rs st = Inr st1"
  shows "pending st1 = [] \<and> resolving st1 \<and> queued st1 = queued st + 1 \<and> finished st1 = finished st"
proof -
  from assms(4) obtain st0 where 1: "resolveEach env dir rs st = Inr st0"
    and 2: "st1 = checkIfFinishedAsynchronously st0"
    by (auto simp add: addList_def split: sum.splits)
  from resolveEach_hits_pending [OF 1 assms(3)] resolveEach_frame [OF 1] assms(1,2)
  show ?thesis unfolding 2 by (simp add: checkIfFinishedAsynchronously_def Let_def)
qed

subsection \<open>Episodes and callbacks\<close>

lemma addList_batch: "addList sampleEnv hitDirectory [alice, bob] newResolver = Inr afterBatch"
  by (auto simp add: addList_def resolve_def newResolver_def isContactResolved_def sampleEnv_def
      alice_def bob_def recipientKey_def pendingContains_def directoryLookup_def hitDirectory_def
      emptyDirectory_def localUidComparesPhoneNumbers_def setResolved_def afterBatch_def
      checkIfFinishedAsynchronously_def Let_def fun_eq_iff)

text \<open>
  C3. (1) Whatever happens to the resolver, one \<open>finished\<close> is emitted exactly in the step
  in which it goes from resolving to idle, and none in any other step: each resolving
  episode has exactly one. (2, 3) A submit never emits it (it is left to a later turn) and
  leaves the resolver resolving. (4) In every state reached from a new resolver, an idle
  resolver has nothing pending, and a resolving one with nothing pending has a
  \<open>checkIfFinished\<close> invocation waiting in the queue. (5) A batch submitted to an idle
  resolver, of any length and with no directory miss, leaves nothing pending and queues one
  invocation; when the queue delivers it, one \<open>finished\<close> is emitted and the resolver is
  idle, and a further delivery emits nothing.
\<close>

theorem finished_once_per_episode:
  "(runStep env s st = Inr st' \<longrightarrow>
      finished st' = finished st + (if resolving st \<and> \<not> resolving st' then 1 else 0))
   \<and> (add env dir r sta = Inr sta' \<longrightarrow> finished sta' = finished sta \<and> resolving sta')
   \<and> (addList env dir rs stb = Inr stb' \<longrightarrow> finished stb' = finished stb \<and> resolving stb')
   \<and> (runSteps env ss newResolver = Inr reached \<longrightarrow>
        (\<not> resolving reached \<longrightarrow> pending reached = [])
        \<and> (resolving reached \<and> pending reached = [] \<longrightarrow> 0 < queued reached))
   \<and> (\<not> resolving stb \<and> pending stb = [] \<and> (\<forall>r \<in> set rs. directoryLookup env dir r \<noteq> None)
        \<and> addList env dir rs stb = Inr stb' \<longrightarrow>
        pending stb' = [] \<and> queued stb' = queued stb + 1
        \<and> finished (deliverQueued stb') = finished stb + 1
        \<and> \<not> resolving (deliverQueued stb')
        \<and> finished (deliverQueued (deliverQueued stb')) = finished stb + 1)"
proof -
  have 1: "runStep env s st = Inr st' \<longrightarrow>
      finished st' = finished st + (if resolving st \<and> \<not> resolving st' then 1 else 0)"
    using runStep_count by blast
  have 2: "add env dir r sta = Inr sta' \<longrightarrow> finished sta' = finished sta \<and> resolving sta'"
    using add_no_signal by blast
  have 3: "addList env dir rs stb = Inr stb' \<longrightarrow> finished stb' = finished stb \<and> resolving stb'"
    using addList_no_signal by blast
  have 4: "runSteps env ss newResolver = Inr reached \<longrightarrow>
        (\<not> resolving reached \<longrightarrow> pending reached = [])
        \<and> (resolving reached \<and> pending reached = [] \<longrightarrow> 0 < queued reached)"
    using runSteps_inv [OF newResolver_inv, of env ss reached] by (auto simp add: resolverInv_def)
  have 5: "\<not> resolving stb \<and> pending stb = [] \<and> (\<forall>r \<in> set rs. directoryLookup env dir r \<noteq> None)
        \<and> addList env dir rs stb = Inr stb' \<longrightarrow>
        pending stb' = [] \<and> queued stb' = queued stb + 1
        \<and> finished (deliverQueued stb') = finished stb + 1
        \<and> \<not> resolving (deliverQueued stb')
        \<and> finished (deliverQueued (deliverQueued stb')) = finished stb + 1"
  proof (intro impI, elim conjE)
    assume a: "\<not> resolving stb" "pending stb = []" "\<forall>r \<in> set rs. directoryLookup env dir r \<noteq> None"
      "addList env dir rs stb = Inr stb'"
    from addList_hits [OF a]
    show "pending stb' = [] \<and> queued stb' = queued stb + 1
        \<and> finished (deliverQueued stb') = finished stb + 1
        \<and> \<not> resolving (deliverQueued stb')
        \<and> finished (deliverQueued (deliverQueued stb')) = finished stb + 1"
      by (simp add: deliverQueued_def checkIfFinished_def)
  qed
  from 1 2 3 4 5 show ?thesis by blast
qed

lemma add_alice: "add sampleEnv hitDirectory alice newResolver
   = Inr (setResolved alice (Some \<lparr>iid = 5, isFavorite = False\<rparr>)
           (newResolver\<lparr>resolving := True, queued := 1, lookups := [alice]\<rparr>))"
  by (simp add: add_def resolve_def newResolver_def isContactResolved_def sampleEnv_def
      alice_def recipientKey_def pendingContains_def directoryLookup_def hitDirectory_def
      emptyDirectory_def localUidComparesPhoneNumbers_def setResolved_def
      checkIfFinishedAsynchronously_def Let_def)

theorem finished_once_per_episode_witness:
  "runStep sampleEnv DeliverQueued afterBatch = Inr (deliverQueued afterBatch)
   \<and> resolving afterBatch \<and> \<not> resolving (deliverQueued afterBatch)
   \<and> finished (deliverQueued afterBatch) = 1
   \<and> (\<exists>st. add sampleEnv hitDirectory alice newResolver = Inr st \<and> finished st = 0 \<and> resolving st)
   \<and> addList sampleEnv hitDirectory [alice, bob] newResolver = Inr afterBatch
   \<and> finished afterBatch = 0
   \<and> runSteps sampleEnv [AddList hitDirectory [alice, bob]] newResolver = Inr afterBatch
   \<and> pending afterBatch = [] \<and> queued afterBatch = 1
   \<and> \<not> resolving newResolver \<and> pending newResolver = []
   \<and> directoryLookup sampleEnv hitDirectory alice \<noteq> None
   \<and> directoryLookup sampleEnv hitDirectory bob \<noteq> None
   \<and> finished (deliverQueued (deliverQueued afterBatch)) = 1"
proof -
  let ?sta = "setResolved alice (Some \<lparr>iid = 5, isFavorite = False\<rparr>)
           (newResolver\<lparr>resolving := True, queued := 1, lookups := [alice]\<rparr>)"
  have h1: "runStep sampleEnv DeliverQueued afterBatch = Inr (deliverQueued afterBatch)" by simp
  have h4: "runSteps sampleEnv [AddList hitDirectory [alice, bob]] newResolver = Inr afterBatch"
    by (simp add: addList_batch)
  have h5: "\<not> resolving newResolver" "pending newResolver = []"
    "\<forall>r \<in> set [alice, bob]. directoryLookup sampleEnv hitDirectory r \<noteq> None"
    by (simp_all add: newResolver_def directoryLookup_def hitDirectory_def)
  have n: "finished newResolver = 0" "queued newResolver = 0" by (simp_all add: newResolver_def)
  from finished_once_per_episode [of sampleEnv DeliverQueued afterBatch "deliverQueued afterBatch"
      hitDirectory alice newResolver ?sta "[alice, bob]" newResolver afterBatch
      "[AddList hitDirectory [alice, bob]]" afterBatch]
  show ?thesis using h1 h4 h5 n add_alice addList_batch 
    by (simp add: afterBatch_def deliverQueued_def checkIfFinished_def)
qed

lemma resolveMatching_pending:
  "pending (resolveMatching env dir pn its st)
   = filter (\<lambda>q. recipientKey q \<notin> recipientKey ` {p \<in> set its. matchesPhoneNumber env p pn})
       (pending st)"
proof (induction its arbitrary: st)
  case Nil
  then show ?case by simp
next
  case (Cons it its)
  show ?case
  proof (cases "matchesPhoneNumber env it pn")
    case True
    have "{p \<in> set (it # its). matchesPhoneNumber env p pn}
          = insert it {p \<in> set its. matchesPhoneNumber env p pn}"
      using True by auto
    then show ?thesis using True Cons.IH
      by (simp add: pendingErase_def conj_commute)
  next
    case False
    have "{p \<in> set (it # its). matchesPhoneNumber env p pn}
          = {p \<in> set its. matchesPhoneNumber env p pn}"
      using False by auto
    then show ?thesis using False Cons.IH by simp
  qed
qed

lemma resolveMatching_shared_other:
  "\<forall>p \<in> set its. matchesPhoneNumber env p pn \<longrightarrow> recipientKey p \<noteq> k \<Longrightarrow>
   shared (resolveMatching env dir pn its st) k = shared st k"
  by (induction its arbitrary: st) (auto simp add: setResolved_def)

lemma resolveMatching_shared_match:
  "distinct (map recipientKey its) \<Longrightarrow> p \<in> set its \<Longrightarrow> matchesPhoneNumber env p pn \<Longrightarrow>
   shared (resolveMatching env dir pn its st) (recipientKey p)
   = ResolvedTo (itemByPhoneNumber dir (remoteUid p))"
proof (induction its arbitrary: st)
  case Nil
  then show ?case by simp
next
  case (Cons it its)
  show ?case
  proof (cases "p = it")
    case True
    have "recipientKey it \<notin> recipientKey ` set its" using Cons.prems(1) by simp
    then have "\<forall>q \<in> set its. matchesPhoneNumber env q pn \<longrightarrow> recipientKey q \<noteq> recipientKey p"
      unfolding True by (metis imageI)
    from resolveMatching_shared_other [OF this] show ?thesis
      using True Cons.prems(3) by (simp add: setResolved_def)
  next
    case False
    then have "p \<in> set its" using Cons.prems(2) by simp
    moreover have "distinct (map recipientKey its)" using Cons.prems(1) by simp
    ultimately show ?thesis using Cons.IH Cons.prems(3) by simp
  qed
qed

lemma checkIfFinished_frame [simp]:
  "pending (fst (checkIfFinished st)) = pending st"
  "shared (fst (checkIfFinished st)) = shared st"
  "lookups (fst (checkIfFinished st)) = lookups st"
  "queued (fst (checkIfFinished st)) = queued st"
  "forceResolving (fst (checkIfFinished st)) = forceResolving st"
  by (simp_all add: checkIfFinished_def)

text \<open>
  C6. A callback with an empty first and a non-empty second argument takes the phone number
  details of the second argument and goes through the pending set (whose entries have
  distinct pairs). Afterwards exactly the entries that do not match are still pending; each
  entry that matched is resolved to what \<open>itemByPhoneNumber\<close> gives for its own remote uid;
  the entries that did not match, and all recipients that were not pending, have the
  resolution they had; and no resolve request went to the directory.
\<close>

theorem phone_callback_resolves_all_matching:
  assumes "second \<noteq> []"
    and "distinct (map recipientKey (pending st))"
    and "st' = addressResolved env dir [] second item st"
    and "number = phoneNumberMatchDetails env second"
  shows "pending st' = filter (\<lambda>p. \<not> matchesPhoneNumber env p number) (pending st)
       \<and> (\<forall>p \<in> set (pending st). matchesPhoneNumber env p number \<longrightarrow>
             shared st' (recipientKey p) = ResolvedTo (itemByPhoneNumber dir (remoteUid p)))
       \<and> (\<forall>p \<in> set (pending st). \<not> matchesPhoneNumber env p number \<longrightarrow>
             shared st' (recipientKey p) = shared st (recipientKey p))
       \<and> (\<forall>k. \<not> pendingContains st k \<longrightarrow> shared st' k = shared st k)
       \<and> lookups st' = lookups st"
proof -
  have st': "st' = fst (checkIfFinished (resolveMatching env dir number (pending st) st))"
    using assms(1,3,4) by (simp add: addressResolved_def)
  have inj: "inj_on recipientKey (set (pending st))"
    using assms(2) by (simp add: distinct_map)
  have key: "recipientKey q \<in> recipientKey ` {p \<in> set (pending st). matchesPhoneNumber env p number}
             \<longleftrightarrow> matchesPhoneNumber env q number" if "q \<in> set (pending st)" for q
  proof
    assume "recipientKey q \<in> recipientKey ` {p \<in> set (pending st). matchesPhoneNumber env p number}"
    then obtain p where p: "p \<in> set (pending st)" "matchesPhoneNumber env p number"
      "recipientKey q = recipientKey p" by auto
    from inj p(1) that p(3) have "q = p" by (auto dest: inj_onD)
    then show "matchesPhoneNumber env q number" using p(2) by simp
  next
    assume "matchesPhoneNumber env q number"
    then show "recipientKey q \<in> recipientKey ` {p \<in> set (pending st). matchesPhoneNumber env p number}"
      using that by auto
  qed
  have 1: "pending st' = filter (\<lambda>p. \<not> matchesPhoneNumber env p number) (pending st)"
    unfolding st' by (simp add: resolveMatching_pending) (rule filter_cong, simp, simp add: key)
  have 2: "\<forall>p \<in> set (pending st). matchesPhoneNumber env p number \<longrightarrow>
             shared st' (recipientKey p) = ResolvedTo (itemByPhoneNumber dir (remoteUid p))"
    unfolding st' using resolveMatching_shared_match [OF assms(2)] by simp
  have 3: "\<forall>p \<in> set (pending st). \<not> matchesPhoneNumber env p number \<longrightarrow>
             shared st' (recipientKey p) = shared st (recipientKey p)"
  proof (intro ballI impI)
    fix p assume p: "p \<in> set (pending st)" "\<not> matchesPhoneNumber env p number"
    have "recipientKey p \<notin> recipientKey ` {q \<in> set (pending st). matchesPhoneNumber env q number}"
      using key [OF p(1)] p(2) by simp
    then have "\<forall>q \<in> set (pending st). matchesPhoneNumber env q number \<longrightarrow> recipientKey q \<noteq> recipientKey p"
      by (metis (mono_tags, lifting) imageI mem_Collect_eq)
    from resolveMatching_shared_other [OF this]
    show "shared st' (recipientKey p) = shared st (recipientKey p)" unfolding st' by simp
  qed
  have 4: "\<forall>k. \<not> pendingContains st k \<longrightarrow> shared st' k = shared st k"
  proof (intro allI impI)
    fix k assume "\<not> pendingContains st k"
    then have "\<forall>q \<in> set (pending st). matchesPhoneNumber env q number \<longrightarrow> recipientKey q \<noteq> k"
      by (auto simp add: pendingContains_def)
    from resolveMatching_shared_other [OF this]
    show "shared st' k = shared st k" unfolding st' by simp
  qed
  have 5: "lookups st' = lookups st" unfolding st' by simp
  from 1 2 3 4 5 show ?thesis by blast
qed

lemma digits_samples:
  "digitsOf ''1555'' = ''1555''" "digitsOf ''+1555'' = ''1555''" "digitsOf ''+1-555'' = ''1555''"
  "digitsOf ''+1999'' = ''1999''"
  by (simp_all add: digitsOf_def)

theorem phone_callback_resolves_all_matching_witness:
  "''1555'' \<noteq> [] \<and> distinct (map recipientKey (pending threePending))
   \<and> pending (addressResolved sampleEnv lengthDirectory [] ''1555'' None threePending) = [phoneC]
   \<and> shared (addressResolved sampleEnv lengthDirectory [] ''1555'' None threePending)
        (recipientKey phoneA) = ResolvedTo (Some \<lparr>iid = 5, isFavorite = False\<rparr>)
   \<and> shared (addressResolved sampleEnv lengthDirectory [] ''1555'' None threePending)
        (recipientKey phoneB) = ResolvedTo (Some \<lparr>iid = 6, isFavorite = False\<rparr>)
   \<and> shared (addressResolved sampleEnv lengthDirectory [] ''1555'' None threePending)
        (recipientKey phoneC) = Unresolved"
proof -
  have h1: "''1555'' \<noteq> []" by simp
  have h2: "distinct (map recipientKey (pending threePending))"
    by (simp add: threePending_def newResolver_def recipientKey_def phoneA_def phoneB_def phoneC_def)
  have m: "matchesPhoneNumber sampleEnv phoneA (phoneNumberMatchDetails sampleEnv ''1555'')"
    "matchesPhoneNumber sampleEnv phoneB (phoneNumberMatchDetails sampleEnv ''1555'')"
    "\<not> matchesPhoneNumber sampleEnv phoneC (phoneNumberMatchDetails sampleEnv ''1555'')"
    by (simp_all add: sampleEnv_def phoneA_def phoneB_def phoneC_def digits_samples)
  have p: "pending threePending = [phoneA, phoneB, phoneC]"
    "shared threePending = (\<lambda>_. Unresolved)"
    by (simp_all add: threePending_def newResolver_def)
  have i: "itemByPhoneNumber lengthDirectory (remoteUid phoneA) = Some \<lparr>iid = 5, isFavorite = False\<rparr>"
    "itemByPhoneNumber lengthDirectory (remoteUid phoneB) = Some \<lparr>iid = 6, isFavorite = False\<rparr>"
    by (simp_all add: lengthDirectory_def phoneA_def phoneB_def)
  from phone_callback_resolves_all_matching [OF h1 h2 refl refl, of sampleEnv lengthDirectory None]
  show ?thesis using h1 h2 m i unfolding p by simp
qed

subsection \<open>Only addressed recipients are pending or resolved to a contact\<close>

lemma addressed_recipient: "addressed (recipientKey r) = (localUid r \<noteq> [] \<and> remoteUid r \<noteq> [])"
  by (simp add: addressed_def recipientKey_def)

lemma setResolved_addressed:
  assumes "addressedInv st" and "item \<noteq> None \<longrightarrow> addressed (recipientKey r)"
  shows "addressedInv (setResolved r item st)"
  using assms by (auto simp add: addressedInv_def setResolved_def)

lemma pendingErase_addressed: "addressedInv st \<Longrightarrow> addressedInv (pendingErase k st)"
  by (auto simp add: addressedInv_def pendingErase_def list_all_iff)

lemma pendingAppend_addressed:
  "addressedInv st \<Longrightarrow> addressed (recipientKey r) \<Longrightarrow>
   addressedInv (st\<lparr>pending := pending st @ [r]\<rparr>)"
  by (simp add: addressedInv_def)

lemma lookups_addressed: "addressedInv (st\<lparr>lookups := l\<rparr>) = addressedInv st"
  by (simp add: addressedInv_def)

lemma resolve_addressed:
  assumes "addressedInv st" and "resolve env dir r st = Inr st'"
  shows "addressedInv st'"
proof (cases "\<not> forceResolving st \<and> isContactResolved st r")
  case True
  then show ?thesis using assms by (simp add: resolve_def)
next
  case notDone: False
  show ?thesis
  proof (cases "localUid r = [] \<or> remoteUid r = []")
    case True
    then have "st' = setResolved r None st"
      using assms(2) notDone by (auto simp add: resolve_def split: if_splits)
    then show ?thesis using assms(1) by (simp add: setResolved_addressed)
  next
    case False
    then have ad: "addressed (recipientKey r)" by (simp add: addressed_recipient)
    show ?thesis
    proof (cases "pendingContains st (recipientKey r)")
      case True
      then show ?thesis using assms notDone False by (simp add: resolve_def)
    next
      case notPending: False
      have l: "addressedInv (st\<lparr>lookups := lookups st @ [r]\<rparr>)"
        using assms(1) by (simp add: lookups_addressed)
      show ?thesis
      proof (cases "directoryLookup env dir r")
        case None
        then have "st' = (st\<lparr>lookups := lookups st @ [r]\<rparr>)
                          \<lparr>pending := pending (st\<lparr>lookups := lookups st @ [r]\<rparr>) @ [r]\<rparr>"
          using assms(2) notDone False notPending by (simp add: resolve_def Let_def)
        then show ?thesis using pendingAppend_addressed [OF l ad] by simp
      next
        case (Some i)
        then have "st' = setResolved r (Some i) (st\<lparr>lookups := lookups st @ [r]\<rparr>)"
          using assms(2) notDone False notPending by (simp add: resolve_def Let_def)
        then show ?thesis using setResolved_addressed [OF l] ad by simp
      qed
    qed
  qed
qed

lemma resolveEach_addressed:
  "addressedInv st \<Longrightarrow> resolveEach env dir rs st = Inr st' \<Longrightarrow> addressedInv st'"
proof (induction rs arbitrary: st)
  case Nil
  then show ?case by simp
next
  case (Cons r rs)
  from Cons.prems(2) obtain st1 where 1: "resolve env dir r st = Inr st1"
    and 2: "resolveEach env dir rs st1 = Inr st'"
    by (auto split: sum.splits)
  from Cons.IH [OF resolve_addressed [OF Cons.prems(1) 1] 2] show ?case .
qed

lemma checkIfFinishedAsynchronously_addressed:
  "addressedInv st \<Longrightarrow> addressedInv (checkIfFinishedAsynchronously st)"
  by (simp add: addressedInv_def checkIfFinishedAsynchronously_def Let_def)

lemma checkIfFinished_addressed:
  "addressedInv st \<Longrightarrow> addressedInv (fst (checkIfFinished st))"
  by (simp add: addressedInv_def checkIfFinished_def)

lemma erase_setResolved_addressed:
  assumes "addressedInv st" and "addressed (recipientKey r)"
  shows "addressedInv (pendingErase k (setResolved r item st))"
  using assms by (simp add: pendingErase_addressed setResolved_addressed)

lemma resolveMatching_addressed:
  "addressedInv st \<Longrightarrow> list_all (\<lambda>p. addressed (recipientKey p)) its \<Longrightarrow>
   addressedInv (resolveMatching env dir pn its st)"
proof (induction its arbitrary: st)
  case Nil
  then show ?case by simp
next
  case (Cons it its)
  show ?case
  proof (cases "matchesPhoneNumber env it pn")
    case True
    have "addressedInv (pendingErase (recipientKey it)
            (setResolved it (itemByPhoneNumber dir (remoteUid it)) st))"
      using Cons.prems by (intro erase_setResolved_addressed) simp_all
    then show ?thesis using True Cons.IH Cons.prems(2) by simp
  next
    case False
    then show ?thesis using Cons.IH Cons.prems by simp
  qed
qed

lemma addressResolved_addressed:
  assumes "addressedInv st"
  shows "addressedInv (addressResolved env dir first second item st)"
proof -
  have p: "list_all (\<lambda>p. addressed (recipientKey p)) (pending st)"
    using assms by (simp add: addressedInv_def)
  have 1: "addressedInv (resolveMatching env dir pn (pending st) st)" for pn
    using assms p by (rule resolveMatching_addressed)
  have 2: "addressedInv (pendingErase (recipientKey it) (setResolved it item st))"
    if "find (\<lambda>p. recipientKey p = (first, second)) (pending st) = Some it" for it
  proof -
    from that have "it \<in> set (pending st)"
      by (auto simp add: find_Some_iff)
    then have "addressed (recipientKey it)"
      using p by (auto simp add: list_all_iff)
    with assms show ?thesis by (rule erase_setResolved_addressed)
  qed
  show ?thesis
    using assms 1 2 by (simp add: addressResolved_def checkIfFinished_addressed split: option.split)
qed

lemma runStep_addressed:
  assumes "addressedInv st" and "runStep env s st = Inr st'"
  shows "addressedInv st'"
proof (cases s)
  case (Add dir r)
  then obtain st1 where 1: "resolve env dir r st = Inr st1" and 2: "st' = checkIfFinishedAsynchronously st1"
    using assms(2) by (auto simp add: add_def split: sum.splits)
  show ?thesis unfolding 2
    by (rule checkIfFinishedAsynchronously_addressed) (rule resolve_addressed [OF assms(1) 1])
next
  case (AddList dir rs)
  then obtain st1 where 1: "resolveEach env dir rs st = Inr st1" and 2: "st' = checkIfFinishedAsynchronously st1"
    using assms(2) by (auto simp add: addList_def split: sum.splits)
  show ?thesis unfolding 2
    by (rule checkIfFinishedAsynchronously_addressed) (rule resolveEach_addressed [OF assms(1) 1])
next
  case (AddressResolved dir first second item)
  then show ?thesis using assms addressResolved_addressed by auto
next
  case DeliverQueued
  have "addressedInv (st\<lparr>queued := queued st - 1\<rparr>)" using assms(1) by (simp add: addressedInv_def)
  then show ?thesis using DeliverQueued assms
    by (auto simp add: deliverQueued_def checkIfFinished_addressed)
next
  case (SetForceResolving enabled)
  then show ?thesis using assms by (auto simp add: addressedInv_def)
qed

lemma runSteps_addressed:
  "addressedInv st \<Longrightarrow> runSteps env ss st = Inr st' \<Longrightarrow> addressedInv st'"
proof (induction ss arbitrary: st)
  case Nil
  then show ?case by simp
next
  case (Cons s ss)
  from Cons.prems(2) obtain st1 where 1: "runStep env s st = Inr st1"
    and 2: "runSteps env ss st1 = Inr st'"
    by (auto split: sum.splits)
  from Cons.IH [OF runStep_addressed [OF Cons.prems(1) 1] 2] show ?case .
qed

lemma newResolver_addressed: "addressedInv newResolver"
  by (simp add: addressedInv_def newResolver_def)

lemma runSteps_batch:
  "runSteps sampleEnv [AddList hitDirectory [alice, bob]] newResolver = Inr afterBatch"
  by (simp add: addList_batch)

subsection \<open>Submitting\<close>

lemma find_after_none:
  "find P xs = None \<Longrightarrow> find P (xs @ [x]) = (if P x then Some x else None)"
  by (induction xs) (simp_all split: if_splits)

lemma resolve_pending_again:
  assumes "localUid r' \<noteq> []" and "remoteUid r' \<noteq> []" and "pendingContains st (recipientKey r')"
  shows "resolve env dir r' st = Inr st"
  using assms by (simp add: resolve_def)

text \<open>
  C5. A recipient with both uids, not resolved yet (or submitted in force-resolve mode), not
  pending, whose resolve request the directory cannot answer at once, is submitted; then a
  recipient with the same pair is submitted, whatever the directory would answer now. The
  first submit sends one request and makes the recipient pending; the second changes nothing
  at all, so one request has been sent. When the callback for the pair arrives, the pair is
  no longer pending and both recipients have the callback's item as their outcome; when
  instead the callback for a matching phone number arrives, both have the item that
  \<open>itemByPhoneNumber\<close> gives for the remote uid.
\<close>

theorem duplicate_submit_one_lookup:
  assumes "localUid r \<noteq> []" and "remoteUid r \<noteq> []"
    and "forceResolving st \<or> \<not> isContactResolved st r"
    and "\<not> pendingContains st (recipientKey r)"
    and "directoryLookup env dir r = None"
    and "recipientKey r' = recipientKey r"
  shows "\<exists>st1. add env dir r st = Inr st1
           \<and> add env dir' r' st1 = Inr st1
           \<and> lookups st1 = lookups st @ [r]
           \<and> pending st1 = pending st @ [r]
           \<and> shared (addressResolved env dir'' (localUid r) (remoteUid r) item st1) (recipientKey r)
               = ResolvedTo item
           \<and> shared (addressResolved env dir'' (localUid r) (remoteUid r) item st1) (recipientKey r')
               = ResolvedTo item
           \<and> \<not> pendingContains (addressResolved env dir'' (localUid r) (remoteUid r) item st1)
                 (recipientKey r)
           \<and> lookups (addressResolved env dir'' (localUid r) (remoteUid r) item st1)
               = lookups st @ [r]
           \<and> (distinct (map recipientKey (pending st)) \<and> second \<noteq> []
                \<and> matchesPhoneNumber env r (phoneNumberMatchDetails env second) \<longrightarrow>
                shared (addressResolved env dir'' [] second item st1) (recipientKey r')
                  = ResolvedTo (itemByPhoneNumber dir'' (remoteUid r))
                \<and> \<not> pendingContains (addressResolved env dir'' [] second item st1)
                      (recipientKey r)
                \<and> lookups (addressResolved env dir'' [] second item st1) = lookups st @ [r])"
proof -
  let ?st0 = "st\<lparr>lookups := lookups st @ [r], pending := pending st @ [r]\<rparr>"
  let ?st1 = "checkIfFinishedAsynchronously ?st0"
  have r0: "resolve env dir r st = Inr ?st0"
    using assms(1-5) by (auto simp add: resolve_def Let_def)
  then have a1: "add env dir r st = Inr ?st1" by (simp add: add_def)
  have f: "pending ?st1 = pending st @ [r]" "lookups ?st1 = lookups st @ [r]" "resolving ?st1"
    by (simp_all add: checkIfFinishedAsynchronously_def Let_def)
  have k: "localUid r' = localUid r" "remoteUid r' = remoteUid r"
    using assms(6) by (simp_all add: recipientKey_def)
  have pc: "pendingContains ?st1 (recipientKey r')"
    using assms(6) f(1) by (simp add: pendingContains_def)
  have "resolve env dir' r' ?st1 = Inr ?st1"
    using k assms(1,2) pc by (intro resolve_pending_again) simp_all
  then have a2: "add env dir' r' ?st1 = Inr ?st1"
    using f(3) by (simp add: add_def checkIfFinishedAsynchronously_def)
  have "recipientKey r \<notin> recipientKey ` set (pending st)"
    using assms(4) by (simp add: pendingContains_def)
  then have "\<forall>p \<in> set (pending st). recipientKey p \<noteq> recipientKey r"
    by (metis imageI)
  then have "find (\<lambda>p. recipientKey p = recipientKey r) (pending st) = None"
    by (simp add: find_None_iff)
  then have fnd: "find (\<lambda>p. recipientKey p = (localUid r, remoteUid r)) (pending ?st1) = Some r"
    unfolding f(1) by (simp add: find_after_none recipientKey_def)
  have ne: "remoteUid r \<noteq> []" "localUid r \<noteq> []" using assms(1,2) by simp_all
  let ?st2 = "addressResolved env dir'' (localUid r) (remoteUid r) item ?st1"
  have st2: "?st2 = fst (checkIfFinished (pendingErase (recipientKey r) (setResolved r item ?st1)))"
    using fnd ne by (simp add: addressResolved_def)
  have s2: "shared ?st2 (recipientKey r) = ResolvedTo item"
    unfolding st2 by (simp add: setResolved_def)
  have p2: "\<not> pendingContains ?st2 (recipientKey r)"
    unfolding st2 by (auto simp add: pendingContains_def pendingErase_def)
  have l2: "lookups ?st2 = lookups st @ [r]"
    unfolding st2 using f(2) by simp
  let ?st3 = "addressResolved env dir'' [] second item ?st1"
  have ph: "shared ?st3 (recipientKey r') = ResolvedTo (itemByPhoneNumber dir'' (remoteUid r))
            \<and> \<not> pendingContains ?st3 (recipientKey r) \<and> lookups ?st3 = lookups st @ [r]"
    if d: "distinct (map recipientKey (pending st))" and s: "second \<noteq> []"
      and m: "matchesPhoneNumber env r (phoneNumberMatchDetails env second)"
  proof -
    let ?pn = "phoneNumberMatchDetails env second"
    have st3: "?st3 = fst (checkIfFinished (resolveMatching env dir'' ?pn (pending ?st1) ?st1))"
      using s by (simp add: addressResolved_def)
    have "recipientKey r \<notin> recipientKey ` set (pending st)"
      using assms(4) by (simp add: pendingContains_def)
    then have d1: "distinct (map recipientKey (pending ?st1))"
      using d unfolding f(1) by simp
    have in1: "r \<in> set (pending ?st1)" unfolding f(1) by simp
    have 1: "shared ?st3 (recipientKey r) = ResolvedTo (itemByPhoneNumber dir'' (remoteUid r))"
      unfolding st3 using resolveMatching_shared_match [OF d1 in1 m] by simp
    have "recipientKey r \<in> recipientKey ` {p \<in> set (pending ?st1). matchesPhoneNumber env p ?pn}"
      using in1 m by blast
    then have 2: "\<not> pendingContains ?st3 (recipientKey r)"
      unfolding st3 by (auto simp add: pendingContains_def resolveMatching_pending)
    have 3: "lookups ?st3 = lookups st @ [r]"
      unfolding st3 using f(2) by simp
    from 1 2 3 assms(6) show ?thesis by simp
  qed
  show ?thesis
    using a1 a2 f(1,2) s2 p2 l2 assms(6) ph by auto
qed

theorem duplicate_submit_one_lookup_witness:
  "localUid phoneA \<noteq> [] \<and> remoteUid phoneA \<noteq> []
   \<and> \<not> isContactResolved newResolver phoneA
   \<and> \<not> pendingContains newResolver (recipientKey phoneA)
   \<and> directoryLookup sampleEnv emptyDirectory phoneA = None
   \<and> recipientKey phoneA' = recipientKey phoneA
   \<and> (\<exists>st1. add sampleEnv emptyDirectory phoneA newResolver = Inr st1
          \<and> add sampleEnv hitDirectory phoneA' st1 = Inr st1
          \<and> lookups st1 = [phoneA]
          \<and> pending st1 = [phoneA]
          \<and> shared (addressResolved sampleEnv lengthDirectory [] ''1555'' None st1)
                (recipientKey phoneA')
              = ResolvedTo (Some \<lparr>iid = 5, isFavorite = False\<rparr>)
          \<and> lookups (addressResolved sampleEnv lengthDirectory [] ''1555'' None st1) = [phoneA])"
proof -
  have h: "localUid phoneA \<noteq> []" "remoteUid phoneA \<noteq> []"
    "forceResolving newResolver \<or> \<not> isContactResolved newResolver phoneA"
    "\<not> pendingContains newResolver (recipientKey phoneA)"
    "directoryLookup sampleEnv emptyDirectory phoneA = None"
    "recipientKey phoneA' = recipientKey phoneA"
    by (simp_all add: phoneA_def phoneA'_def newResolver_def isContactResolved_def
        pendingContains_def directoryLookup_def emptyDirectory_def recipientKey_def)
  have g: "distinct (map recipientKey (pending newResolver))" "''1555'' \<noteq> []"
    "matchesPhoneNumber sampleEnv phoneA (phoneNumberMatchDetails sampleEnv ''1555'')"
    "itemByPhoneNumber lengthDirectory (remoteUid phoneA) = Some \<lparr>iid = 5, isFavorite = False\<rparr>"
    "lookups newResolver = []" "pending newResolver = []"
    "\<not> isContactResolved newResolver phoneA"
    by (simp_all add: newResolver_def sampleEnv_def phoneA_def digits_samples lengthDirectory_def
        isContactResolved_def)
  from duplicate_submit_one_lookup [OF h, of hitDirectory lengthDirectory None "''1555''"]
  show ?thesis using h(1,2,4,5,6) g by auto
qed

text \<open>
  C7, as the code has it. With \<open>Q_ASSERT\<close> compiled in, submitting a recipient whose local
  uid is empty stops the process at line 125.
\<close>

theorem empty_localUid_aborts_with_assertions:
  "addList debugEnv emptyDirectory [noLocalUid] newResolver = Inl AssertionFailed"
  by (simp add: addList_def resolve_def debugEnv_def sampleEnv_def noLocalUid_def newResolver_def
      isContactResolved_def)

lemma resolveEach_append:
  "resolveEach env dir (xs @ ys) st =
     (case resolveEach env dir xs st of
        Inl e \<Rightarrow> Inl e
      | Inr st' \<Rightarrow> resolveEach env dir ys st')"
  by (induction xs arbitrary: st) (simp_all split: sum.splits)

lemma resolveEach_alice:
  "resolveEach debugEnv hitDirectory [alice] newResolver = Inr afterAlice"
  by (simp add: resolve_def newResolver_def isContactResolved_def debugEnv_def sampleEnv_def
      alice_def recipientKey_def pendingContains_def directoryLookup_def hitDirectory_def
      emptyDirectory_def localUidComparesPhoneNumbers_def afterAlice_def Let_def)

text \<open>
  C7, amended. First part: in any state reached from a new resolver, submitting a recipient
  with an empty local or remote uid succeeds, unless the \<open>Q_ASSERT\<close> of line 125 is compiled
  in, the local uid is empty and the recipient still has to be resolved: the recipient is
  resolved to nothing afterwards, no request is sent to the directory, the pending set is
  unchanged, and a batch goes on with its remaining recipients. Second part: in any state,
  with \<open>Q_ASSERT\<close> compiled in, every submit of a recipient that has an empty local uid and
  still has to be resolved (it is not resolved yet, or the resolver is in force-resolve mode)
  stops at the assertion, alone or in a batch whose earlier recipients were resolved.
\<close>

theorem unaddressable_resolved_to_nothing:
  "(runSteps env ss newResolver = Inr st
      \<and> (localUid r = [] \<or> remoteUid r = [])
      \<and> (assertsEnabled env \<and> localUid r = [] \<longrightarrow>
            \<not> forceResolving st \<and> isContactResolved st r) \<longrightarrow>
      (\<exists>st1. resolve env dir r st = Inr st1
           \<and> shared st1 (recipientKey r) = ResolvedTo None
           \<and> lookups st1 = lookups st
           \<and> pending st1 = pending st
           \<and> add env dir r st = Inr (checkIfFinishedAsynchronously st1)
           \<and> addList env dir (r # rs) st = addList env dir rs st1))
   \<and> (assertsEnabled env' \<and> localUid r' = []
        \<and> (forceResolving st' \<or> \<not> isContactResolved st' r') \<longrightarrow>
        resolve env' dir' r' st' = Inl AssertionFailed
        \<and> add env' dir' r' st' = Inl AssertionFailed
        \<and> (resolveEach env' dir' before st0 = Inr st' \<longrightarrow>
              addList env' dir' (before @ r' # rs') st0 = Inl AssertionFailed))"
proof -
  have part1: "\<exists>st1. resolve env dir r st = Inr st1
           \<and> shared st1 (recipientKey r) = ResolvedTo None
           \<and> lookups st1 = lookups st
           \<and> pending st1 = pending st
           \<and> add env dir r st = Inr (checkIfFinishedAsynchronously st1)
           \<and> addList env dir (r # rs) st = addList env dir rs st1"
    if reach: "runSteps env ss newResolver = Inr st"
      and empty: "localUid r = [] \<or> remoteUid r = []"
      and ok: "assertsEnabled env \<and> localUid r = [] \<longrightarrow>
                 \<not> forceResolving st \<and> isContactResolved st r"
  proof -
    have inv: "addressedInv st"
      using runSteps_addressed [OF newResolver_addressed reach] .
    show ?thesis
    proof (cases "\<not> forceResolving st \<and> isContactResolved st r")
      case True
      then have 1: "resolve env dir r st = Inr st" by (simp add: resolve_def)
      from True obtain x where x: "shared st (recipientKey r) = ResolvedTo x"
        by (cases "shared st (recipientKey r)") (auto simp add: isContactResolved_def)
      have "x = None"
      proof (cases x)
        case None
        then show ?thesis .
      next
        case (Some item)
        from inv have "\<forall>k item. shared st k = ResolvedTo (Some item) \<longrightarrow> addressed k"
          by (simp add: addressedInv_def)
        with x Some have "addressed (recipientKey r)" by blast
        then show ?thesis using empty by (auto simp add: addressed_recipient)
      qed
      with x 1 show ?thesis by (simp add: add_def addList_def)
    next
      case False
      then have "\<not> (assertsEnabled env \<and> localUid r = [])" using ok by blast
      then have 1: "resolve env dir r st = Inr (setResolved r None st)"
        using False empty by (auto simp add: resolve_def)
      then show ?thesis by (simp add: add_def addList_def setResolved_def)
    qed
  qed
  have part2: "resolve env' dir' r' st' = Inl AssertionFailed
        \<and> add env' dir' r' st' = Inl AssertionFailed
        \<and> (resolveEach env' dir' before st0 = Inr st' \<longrightarrow>
              addList env' dir' (before @ r' # rs') st0 = Inl AssertionFailed)"
    if "assertsEnabled env'" and "localUid r' = []"
      and "forceResolving st' \<or> \<not> isContactResolved st' r'"
  proof -
    have 1: "resolve env' dir' r' st' = Inl AssertionFailed"
      using that by (auto simp add: resolve_def)
    then have 2: "add env' dir' r' st' = Inl AssertionFailed" by (simp add: add_def)
    have 3: "addList env' dir' (before @ r' # rs') st0 = Inl AssertionFailed"
      if "resolveEach env' dir' before st0 = Inr st'"
      using that 1 by (simp add: addList_def resolveEach_append)
    from 1 2 3 show ?thesis by blast
  qed
  from part1 part2 show ?thesis by blast
qed

theorem unaddressable_resolved_to_nothing_witness:
  "runSteps sampleEnv [AddList hitDirectory [alice, bob]] newResolver = Inr afterBatch
   \<and> localUid noLocalUid = []
   \<and> \<not> assertsEnabled sampleEnv
   \<and> (\<exists>st1. resolve sampleEnv emptyDirectory noLocalUid afterBatch = Inr st1
          \<and> shared st1 (recipientKey noLocalUid) = ResolvedTo None
          \<and> lookups st1 = [alice, bob]
          \<and> pending st1 = []
          \<and> add sampleEnv emptyDirectory noLocalUid afterBatch
              = Inr (checkIfFinishedAsynchronously st1)
          \<and> addList sampleEnv emptyDirectory [noLocalUid, alice] afterBatch
              = addList sampleEnv emptyDirectory [alice] st1)
   \<and> assertsEnabled debugEnv
   \<and> \<not> isContactResolved afterAlice noLocalUid
   \<and> resolveEach debugEnv hitDirectory [alice] newResolver = Inr afterAlice
   \<and> resolve debugEnv hitDirectory noLocalUid afterAlice = Inl AssertionFailed
   \<and> add debugEnv hitDirectory noLocalUid afterAlice = Inl AssertionFailed
   \<and> addList debugEnv hitDirectory [alice, noLocalUid, bob] newResolver = Inl AssertionFailed"
proof -
  have h2: "localUid noLocalUid = []" by (simp add: noLocalUid_def)
  have h3: "\<not> assertsEnabled sampleEnv" by (simp add: sampleEnv_def)
  have g1: "assertsEnabled debugEnv" by (simp add: debugEnv_def)
  have g3: "\<not> isContactResolved afterAlice noLocalUid"
    by (simp add: afterAlice_def isContactResolved_def setResolved_def newResolver_def
        recipientKey_def noLocalUid_def alice_def)
  have f: "lookups afterBatch = [alice, bob]" "pending afterBatch = []"
    by (simp_all add: afterBatch_def newResolver_def)
  from unaddressable_resolved_to_nothing [where env = sampleEnv and ss = "[AddList hitDirectory [alice, bob]]"
      and st = afterBatch and r = noLocalUid and dir = emptyDirectory and rs = "[alice]"
      and env' = debugEnv and r' = noLocalUid and st' = afterAlice and dir' = hitDirectory
      and before = "[alice]" and ?st0.0 = newResolver and rs' = "[bob]"]
  show ?thesis using runSteps_batch h2 h3 g1 g3 resolveEach_alice unfolding f by auto
qed

text \<open>
  C8, as the code has it. A resolver that is resolving with nothing pending gets a callback
  with an empty second argument: it returns at line 177, before the finished-check, so the
  resolver is still resolving and no \<open>finished\<close> was emitted.
\<close>

theorem malformed_callback_skips_finished_check:
  "resolving afterBatch \<and> pending afterBatch = []
   \<and> pending (addressResolved sampleEnv emptyDirectory ''ring/tel/account0'' [] None afterBatch) = []
   \<and> resolving (addressResolved sampleEnv emptyDirectory ''ring/tel/account0'' [] None afterBatch)
   \<and> finished (addressResolved sampleEnv emptyDirectory ''ring/tel/account0'' [] None afterBatch)
       = finished afterBatch"
  by (simp add: addressResolved_def afterBatch_def newResolver_def)

text \<open>
  C8, amended. After a callback with a non-empty second argument the finished-check has run:
  if the resolver was resolving and nothing is pending after the callback's work, it is idle
  and one \<open>finished\<close> was emitted; otherwise its state and the count of \<open>finished\<close> are
  as before. A callback with an empty second argument leaves the resolver as it was.
\<close>

theorem callback_runs_finished_check:
  assumes "second \<noteq> []" and "st' = addressResolved env dir first second item st"
  shows "(if resolving st \<and> pending st' = []
          then \<not> resolving st' \<and> finished st' = finished st + 1
          else resolving st' = resolving st \<and> finished st' = finished st)
       \<and> queued st' = queued st
       \<and> addressResolved env dir first [] item st = st"
  using assms by (auto simp add: addressResolved_def checkIfFinished_def split: option.split)

theorem callback_runs_finished_check_witness:
  "''+1555'' \<noteq> []
   \<and> resolving onePending
   \<and> pending (addressResolved sampleEnv emptyDirectory ''ring/tel/account0'' ''+1555'' None onePending) = []
   \<and> \<not> resolving (addressResolved sampleEnv emptyDirectory ''ring/tel/account0'' ''+1555'' None onePending)
   \<and> finished (addressResolved sampleEnv emptyDirectory ''ring/tel/account0'' ''+1555'' None onePending)
       = finished onePending + 1"
proof -
  have h: "''+1555'' \<noteq> []" by simp
  have r: "resolving onePending" by (simp add: onePending_def)
  have p: "pending (addressResolved sampleEnv emptyDirectory ''ring/tel/account0'' ''+1555'' None onePending) = []"
    by (simp add: addressResolved_def onePending_def newResolver_def pendingContains_def
        recipientKey_def phoneA_def pendingErase_def setResolved_def checkIfFinished_def)
  from callback_runs_finished_check [where second = "''+1555''" and env = sampleEnv
      and dir = emptyDirectory and first = "''ring/tel/account0''" and item = None
      and st = onePending, OF h refl]
  show ?thesis using h r p by simp
qed

end
